theory Spec2Isabelle
  imports Main
begin

section \<open>Data model\<close>

text \<open>
  The board is a Python \<^verbatim>\<open>list[str]\<close>: free cells hold their position label
  (\<^verbatim>\<open>'1'\<close>, \<^verbatim>\<open>'2'\<close>, ...), occupied cells hold a player's mark. Sizes, run lengths,
  indices and depths are Python integers, hence \<^typ>\<open>int\<close>.
\<close>

type_synonym board = "string list"

datatype error = IndexError

text \<open>
  The fields set by \<^verbatim>\<open>TicTacToeAdapter.__init__\<close>; the field \<^verbatim>\<open>size\<close> is written
  \<open>size'\<close>, since \<open>size\<close> is a constant of the logic.
\<close>

record adapter =
  size' :: int
  to_win :: int
  human :: string
  computer :: string

text \<open>
  Subscripting a Python list of length \<open>n\<close> with \<open>i\<close>: the positions \<open>0 .. n - 1\<close> are
  addressed by themselves and, from the end, by \<open>- n .. - 1\<close>; any other subscript raises
  \<^verbatim>\<open>IndexError\<close>.
\<close>

definition list_index :: "'a list \<Rightarrow> int \<Rightarrow> error + nat" where
  "list_index xs i =
     (if 0 \<le> i \<and> i < int (length xs) then Inr (nat i)
      else if - int (length xs) \<le> i \<and> i < 0 then Inr (nat (int (length xs) + i))
      else Inl IndexError)"

text \<open>The read \<^verbatim>\<open>xs[i]\<close> and the write \<^verbatim>\<open>xs[i] = v\<close>.\<close>

definition getitem :: "'a list \<Rightarrow> int \<Rightarrow> error + 'a" where
  "getitem xs i = (case list_index xs i of Inl e \<Rightarrow> Inl e | Inr j \<Rightarrow> Inr (xs ! j))"

definition setitem :: "'a list \<Rightarrow> int \<Rightarrow> 'a \<Rightarrow> error + 'a list" where
  "setitem xs i v = (case list_index xs i of Inl e \<Rightarrow> Inl e | Inr j \<Rightarrow> Inr (xs[j := v]))"

text \<open>\<^verbatim>\<open>range(n)\<close> and \<^verbatim>\<open>range(a, b)\<close> over Python integers (empty when \<open>b \<le> a\<close>).\<close>

definition range1 :: "int \<Rightarrow> int list" where
  "range1 n = [0..n - 1]"

definition range2 :: "int \<Rightarrow> int \<Rightarrow> int list" where
  "range2 a b = [a..b - 1]"

section \<open>The search engine (\<^verbatim>\<open>minimax_lib.minimax\<close>)\<close>

text \<open>
  Scores are what \<^verbatim>\<open>evaluate\<close> returns (integers) or one of the two sentinels
  \<^verbatim>\<open>float("-inf")\<close> and \<^verbatim>\<open>float("inf")\<close> that the loops start from; \<open>score_lt\<close> is
  Python's \<^verbatim>\<open><\<close> on these values.
\<close>

datatype score = MInf | Fin int | PInf

fun score_lt :: "score \<Rightarrow> score \<Rightarrow> bool" where
  "score_lt MInf MInf = False"
| "score_lt MInf (Fin y) = True"
| "score_lt MInf PInf = True"
| "score_lt (Fin x) MInf = False"
| "score_lt (Fin x) (Fin y) = (x < y)"
| "score_lt (Fin x) PInf = True"
| "score_lt PInf s = False"

text \<open>
  A call either does not return (\<open>None\<close>), raises (\<open>Some (Inl e)\<close>) or returns a value
  (\<open>Some (Inr v)\<close>). The callbacks are Python callables: they return or raise.
\<close>

type_synonym ('e, 'a) outcome = "('e + 'a) option"

definition bind_outcome ::
  "('e, 'a) outcome \<Rightarrow> ('a \<Rightarrow> ('e, 'b) outcome) \<Rightarrow> ('e, 'b) outcome" where
  "bind_outcome m k =
     (case m of None \<Rightarrow> None | Some (Inl e) \<Rightarrow> Some (Inl e) | Some (Inr v) \<Rightarrow> k v)"

text \<open>A \<^verbatim>\<open>for\<close> loop over a list, threading the loop-carried variables.\<close>

fun for_loop ::
  "'a list \<Rightarrow> ('a \<Rightarrow> 'b \<Rightarrow> ('e, 'b) outcome) \<Rightarrow> 'b \<Rightarrow> ('e, 'b) outcome" where
  "for_loop [] body acc = Some (Inr acc)"
| "for_loop (x # xs) body acc = bind_outcome (body x acc) (for_loop xs body)"

lemma bind_outcome_mono [partial_function_mono]:
  assumes mf: "mono_option B" and mg: "\<And>y. mono_option (\<lambda>f. C y f)"
  shows "mono_option (\<lambda>f. bind_outcome (B f) (\<lambda>y. C y f))"
proof -
  have eq: "\<And>f. bind_outcome (B f) (\<lambda>y. C y f) =
      Option.bind (B f) (\<lambda>r. case r of Inl e \<Rightarrow> Some (Inl e) | Inr v \<Rightarrow> C v f)"
    by (simp add: bind_outcome_def split: option.splits sum.splits)
  have "mono_option
          (\<lambda>f. Option.bind (B f) (\<lambda>r. case r of Inl e \<Rightarrow> Some (Inl e) | Inr v \<Rightarrow> C v f))"
  proof (rule bind_mono [OF mf])
    fix r :: "'c + 'd"
    show "mono_option (\<lambda>f. case r of Inl e \<Rightarrow> Some (Inl e) | Inr v \<Rightarrow> C v f)"
      by (cases r) (simp_all add: option.const_mono mg)
  qed
  then show ?thesis by (simp only: eq)
qed

lemma for_loop_mono [partial_function_mono]:
  assumes "\<And>x acc. mono_option (\<lambda>f. body f x acc)"
  shows "mono_option (\<lambda>f. for_loop xs (body f) acc)"
proof (induction xs arbitrary: acc)
  case Nil
  show ?case by (simp add: option.const_mono)
next
  case (Cons x xs)
  show ?case
    unfolding for_loop.simps
    by (rule bind_outcome_mono) (rule assms, rule Cons.IH)
qed

text \<open>
  \<^verbatim>\<open>minimax\<close>. The test \<^verbatim>\<open>depth == 0 or is_terminal(state)\<close> does not call
  \<^verbatim>\<open>is_terminal\<close> when the depth is zero. A negative depth never reaches zero, so the
  recursion is not bounded by the depth alone and the function is partial: a call whose
  recursion does not end has no outcome (the interpreter's recursion limit is not
  modelled).
\<close>

partial_function (option) minimax ::
  "'s \<Rightarrow> int \<Rightarrow> bool \<Rightarrow> ('s \<Rightarrow> bool \<Rightarrow> 'e + 'm list) \<Rightarrow> ('s \<Rightarrow> 'm \<Rightarrow> bool \<Rightarrow> 'e + 's)
     \<Rightarrow> ('s \<Rightarrow> 'e + int) \<Rightarrow> ('s \<Rightarrow> 'e + bool) \<Rightarrow> ('e, score \<times> 'm option) outcome"
where
  "minimax state depth maximizing_player get_moves apply_move evaluate is_terminal =
     (if depth = 0 then Some (map_sum id (\<lambda>v. (Fin v, None)) (evaluate state))
      else case is_terminal state of
        Inl e \<Rightarrow> Some (Inl e)
      | Inr terminal \<Rightarrow>
          if terminal then Some (map_sum id (\<lambda>v. (Fin v, None)) (evaluate state))
          else if maximizing_player then
            (case get_moves state True of
               Inl e \<Rightarrow> Some (Inl e)
             | Inr moves \<Rightarrow>
                 for_loop moves
                   (\<lambda>move (best_score, best_move).
                      case apply_move state move True of
                        Inl e \<Rightarrow> Some (Inl e)
                      | Inr new_state \<Rightarrow>
                          bind_outcome
                            (minimax new_state (depth - 1) False
                               get_moves apply_move evaluate is_terminal)
                            (\<lambda>(score, _).
                               if score_lt best_score score
                               then Some (Inr (score, Some move))
                               else Some (Inr (best_score, best_move))))
                   (MInf, None))
          else
            (case get_moves state False of
               Inl e \<Rightarrow> Some (Inl e)
             | Inr moves \<Rightarrow>
                 for_loop moves
                   (\<lambda>move (best_score, best_move).
                      case apply_move state move False of
                        Inl e \<Rightarrow> Some (Inl e)
                      | Inr new_state \<Rightarrow>
                          bind_outcome
                            (minimax new_state (depth - 1) True
                               get_moves apply_move evaluate is_terminal)
                            (\<lambda>(score, _).
                               if score_lt score best_score
                               then Some (Inr (score, Some move))
                               else Some (Inr (best_score, best_move))))
                   (PInf, None)))"

declare minimax.simps [code]

section \<open>Win detection (\<^verbatim>\<open>game_functions.check_winner\<close>)\<close>

text \<open>
  \<^verbatim>\<open>all(board[ix] == player for ix in window)\<close>: the generator is consumed from the
  left, stops at the first cell that differs, and an out-of-range read raises.
\<close>

fun all_equal :: "board \<Rightarrow> string \<Rightarrow> int list \<Rightarrow> error + bool" where
  "all_equal board player [] = Inr True"
| "all_equal board player (ix # ixs) =
     (case getitem board ix of
        Inl e \<Rightarrow> Inl e
      | Inr v \<Rightarrow> if v = player then all_equal board player ixs else Inr False)"

text \<open>
  One pair of nested \<^verbatim>\<open>for\<close> loops of \<^verbatim>\<open>check_winner\<close>, over the windows in the
  order the loops visit them: \<^verbatim>\<open>return True\<close> at the first full window; \<open>Inr False\<close>
  means that the loops ran to their end.
\<close>

fun scan_windows :: "board \<Rightarrow> string \<Rightarrow> int list list \<Rightarrow> error + bool" where
  "scan_windows board player [] = Inr False"
| "scan_windows board player (w # ws) =
     (case all_equal board player w of
        Inl e \<Rightarrow> Inl e
      | Inr found \<Rightarrow> if found then Inr True else scan_windows board player ws)"

definition check_winner :: "board \<Rightarrow> string \<Rightarrow> int \<Rightarrow> int \<Rightarrow> error + bool" where
  "check_winner board player sz tw =
     (case scan_windows board player
             (concat (map (\<lambda>r. map (\<lambda>c. map (\<lambda>k. r * sz + c + k) (range1 tw))
                                   (range1 (sz - tw + 1))) (range1 sz))) of
        Inl e \<Rightarrow> Inl e
      | Inr True \<Rightarrow> Inr True
      | Inr False \<Rightarrow>
     (case scan_windows board player
             (concat (map (\<lambda>c. map (\<lambda>r. map (\<lambda>k. (r + k) * sz + c) (range1 tw))
                                   (range1 (sz - tw + 1))) (range1 sz))) of
        Inl e \<Rightarrow> Inl e
      | Inr True \<Rightarrow> Inr True
      | Inr False \<Rightarrow>
     (case scan_windows board player
             (concat (map (\<lambda>r. map (\<lambda>c. map (\<lambda>k. (r + k) * sz + (c + k)) (range1 tw))
                                   (range1 (sz - tw + 1))) (range1 (sz - tw + 1)))) of
        Inl e \<Rightarrow> Inl e
      | Inr True \<Rightarrow> Inr True
      | Inr False \<Rightarrow>
     (case scan_windows board player
             (concat (map (\<lambda>r. map (\<lambda>c. map (\<lambda>k. (r + k) * sz + (c - k)) (range1 tw))
                                   (range2 (tw - 1) sz)) (range1 (sz - tw + 1)))) of
        Inl e \<Rightarrow> Inl e
      | Inr True \<Rightarrow> Inr True
      | Inr False \<Rightarrow> Inr False))))"

section \<open>The adapter (\<^verbatim>\<open>tictactoe_adapter.TicTacToeAdapter\<close>)\<close>

subsection \<open>\<^verbatim>\<open>generate_lines\<close>\<close>

text \<open>The four loop nests of \<^verbatim>\<open>generate_lines\<close>, each appending to \<^verbatim>\<open>lines\<close> in turn.\<close>

definition row_lines :: "adapter \<Rightarrow> int list list" where
  "row_lines a =
     (let N = size' a; K = to_win a
      in concat (map (\<lambda>r. map (\<lambda>c. map (\<lambda>i. r * N + c + i) (range1 K))
                             (range1 (N - K + 1))) (range1 N)))"

definition column_lines :: "adapter \<Rightarrow> int list list" where
  "column_lines a =
     (let N = size' a; K = to_win a
      in concat (map (\<lambda>c. map (\<lambda>r. map (\<lambda>i. (r + i) * N + c) (range1 K))
                             (range1 (N - K + 1))) (range1 N)))"

definition diagonal_lines :: "adapter \<Rightarrow> int list list" where
  "diagonal_lines a =
     (let N = size' a; K = to_win a
      in concat (map (\<lambda>r. map (\<lambda>c. map (\<lambda>i. (r + i) * N + (c + i)) (range1 K))
                             (range1 (N - K + 1))) (range1 (N - K + 1))))"

definition anti_diagonal_lines :: "adapter \<Rightarrow> int list list" where
  "anti_diagonal_lines a =
     (let N = size' a; K = to_win a
      in concat (map (\<lambda>r. map (\<lambda>c. map (\<lambda>i. (r + i) * N + (c - i)) (range1 K))
                             (range2 (K - 1) N)) (range1 (N - K + 1))))"

definition generate_lines :: "adapter \<Rightarrow> int list list" where
  "generate_lines a =
     row_lines a @ column_lines a @ diagonal_lines a @ anti_diagonal_lines a"

subsection \<open>\<^verbatim>\<open>get_moves\<close>\<close>

text \<open>
  \<^verbatim>\<open>[i for i, v in enumerate(state) if v not in (self.human, self.computer)]\<close>;
  the flag \<^verbatim>\<open>maximizing\<close> is a parameter that the body never reads.
\<close>

definition get_moves :: "adapter \<Rightarrow> board \<Rightarrow> bool \<Rightarrow> int list" where
  "get_moves a state maximizing =
     map (\<lambda>(i, v). int i)
       (filter (\<lambda>(i, v). \<not> (v = human a \<or> v = computer a)) (enumerate 0 state))"

subsection \<open>\<^verbatim>\<open>apply_move\<close>\<close>

text \<open>
  \<^verbatim>\<open>new_state = state.copy(); new_state[move] = mark; return new_state\<close>, on values:
  the copy has the contents of \<^verbatim>\<open>state\<close>.
\<close>

definition apply_move :: "adapter \<Rightarrow> board \<Rightarrow> int \<Rightarrow> bool \<Rightarrow> error + board" where
  "apply_move a state move maximizing =
     setitem state move (if maximizing then computer a else human a)"

text \<open>
  The same method on a store of list objects, where an object is named by its position
  in the store: \<^verbatim>\<open>state.copy()\<close> allocates a new object, and the assignment writes to
  the new object only.
\<close>

type_synonym heap = "board list"

definition list_copy :: "heap \<Rightarrow> nat \<Rightarrow> heap \<times> nat" where
  "list_copy h p = (h @ [h ! p], length h)"

definition apply_move_heap ::
  "adapter \<Rightarrow> heap \<Rightarrow> nat \<Rightarrow> int \<Rightarrow> bool \<Rightarrow> error + heap \<times> nat" where
  "apply_move_heap a h state move maximizing =
     (let (h', new_state) = list_copy h state
      in case setitem (h' ! new_state) move (if maximizing then computer a else human a) of
           Inl e \<Rightarrow> Inl e
         | Inr b \<Rightarrow> Inr (h'[new_state := b], new_state))"

subsection \<open>\<^verbatim>\<open>evaluate\<close>\<close>

text \<open>\<^verbatim>\<open>sum(1 for i in line if state[i] == mark)\<close>.\<close>

fun count_marks :: "board \<Rightarrow> string \<Rightarrow> int list \<Rightarrow> error + int" where
  "count_marks state mark [] = Inr 0"
| "count_marks state mark (i # line) =
     (case getitem state i of
        Inl e \<Rightarrow> Inl e
      | Inr v \<Rightarrow>
          (case count_marks state mark line of
             Inl e \<Rightarrow> Inl e
           | Inr n \<Rightarrow> Inr ((if v = mark then 1 else 0) + n)))"

text \<open>The loop \<^verbatim>\<open>for line in lines\<close> of \<^verbatim>\<open>evaluate\<close>, carrying \<^verbatim>\<open>score\<close>.\<close>

fun score_lines :: "adapter \<Rightarrow> board \<Rightarrow> int list list \<Rightarrow> int \<Rightarrow> error + int" where
  "score_lines a state [] score = Inr score"
| "score_lines a state (line # lines) score =
     (case count_marks state (computer a) line of
        Inl e \<Rightarrow> Inl e
      | Inr ai_count \<Rightarrow>
          (case count_marks state (human a) line of
             Inl e \<Rightarrow> Inl e
           | Inr human_count \<Rightarrow>
               if human_count = 0 \<and> ai_count > 0
               then score_lines a state lines (score + ai_count)
               else if ai_count = 0 \<and> human_count > 0
               then score_lines a state lines (score - human_count)
               else score_lines a state lines score))"

definition evaluate :: "adapter \<Rightarrow> board \<Rightarrow> error + int" where
  "evaluate a state =
     (case check_winner state (computer a) (size' a) (to_win a) of
        Inl e \<Rightarrow> Inl e
      | Inr computer_won \<Rightarrow>
          if computer_won then Inr 100
          else
            (case check_winner state (human a) (size' a) (to_win a) of
               Inl e \<Rightarrow> Inl e
             | Inr human_won \<Rightarrow>
                 if human_won then Inr (- 100)
                 else score_lines a state (generate_lines a) 0))"

subsection \<open>\<^verbatim>\<open>is_terminal\<close>\<close>

definition is_terminal :: "adapter \<Rightarrow> board \<Rightarrow> error + bool" where
  "is_terminal a state =
     (case check_winner state (human a) (size' a) (to_win a) of
        Inl e \<Rightarrow> Inl e
      | Inr human_won \<Rightarrow>
          if human_won then Inr True
          else
            (case check_winner state (computer a) (size' a) (to_win a) of
               Inl e \<Rightarrow> Inl e
             | Inr computer_won \<Rightarrow>
                 if computer_won then Inr True
                 else Inr (list_all (\<lambda>v. v = human a \<or> v = computer a) state)))"

subsection \<open>\<^verbatim>\<open>best_move\<close>\<close>

text \<open>The engine instantiated with the adapter's four bound methods.\<close>

definition search :: "adapter \<Rightarrow> board \<Rightarrow> int \<Rightarrow> bool \<Rightarrow> (error, score \<times> int option) outcome"
  where
  "search a state depth maximizing =
     minimax state depth maximizing (\<lambda>s m. Inr (get_moves a s m)) (apply_move a)
       (evaluate a) (is_terminal a)"

definition best_move :: "adapter \<Rightarrow> board \<Rightarrow> int \<Rightarrow> (error, int option) outcome" where
  "best_move a board depth =
     bind_outcome (search a board depth True) (\<lambda>(_, move). Some (Inr move))"

section \<open>Specification-level notions\<close>

text \<open>
  The heuristic in the words of the specification: a line that holds at least one
  computer mark and no human mark counts its computer marks, a line that holds at least
  one human mark and no computer mark counts its human marks negatively, and any other
  line counts zero; the heuristic is the sum over the generated lines.
\<close>

definition marks_in_line :: "board \<Rightarrow> string \<Rightarrow> int list \<Rightarrow> int" where
  "marks_in_line state mark line = int (length (filter (\<lambda>i. state ! nat i = mark) line))"

definition line_value_spec :: "adapter \<Rightarrow> board \<Rightarrow> int list \<Rightarrow> int" where
  "line_value_spec a state line =
     (if 0 < marks_in_line state (computer a) line \<and> marks_in_line state (human a) line = 0
      then marks_in_line state (computer a) line
      else if 0 < marks_in_line state (human a) line \<and> marks_in_line state (computer a) line = 0
      then - marks_in_line state (human a) line
      else 0)"

definition heuristic_spec :: "adapter \<Rightarrow> board \<Rightarrow> int" where
  "heuristic_spec a state = sum_list (map (line_value_spec a state) (generate_lines a))"

text \<open>
  A game for the engine in which no state is terminal and no state has a move, and whose
  static evaluation is \<open>7\<close> everywhere.
\<close>

definition stuck_moves :: "unit \<Rightarrow> bool \<Rightarrow> error + unit list" where
  "stuck_moves s maximizing = Inr []"

definition stuck_apply :: "unit \<Rightarrow> unit \<Rightarrow> bool \<Rightarrow> error + unit" where
  "stuck_apply s move maximizing = Inr s"

definition stuck_evaluate :: "unit \<Rightarrow> error + int" where
  "stuck_evaluate s = Inr 7"

definition stuck_terminal :: "unit \<Rightarrow> error + bool" where
  "stuck_terminal s = Inr False"

text \<open>
  What a loop of \<^verbatim>\<open>minimax\<close> computes once the score \<open>sc m\<close> of every move is known:
  the running best is replaced only by a score that is better (\<open>better new old\<close>).
\<close>

fun select_best ::
  "(score \<Rightarrow> score \<Rightarrow> bool) \<Rightarrow> ('m \<Rightarrow> score) \<Rightarrow> 'm list \<Rightarrow> score \<times> 'm option
     \<Rightarrow> score \<times> 'm option" where
  "select_best better sc [] acc = acc"
| "select_best better sc (m # ms) acc =
     select_best better sc ms (if better (sc m) (fst acc) then (sc m, Some m) else acc)"

text \<open>
  \<open>better_for maximizing new old\<close>: the comparison of the maximizing loop
  (\<^verbatim>\<open>score > best_score\<close>) and of the minimizing loop (\<^verbatim>\<open>score < best_score\<close>);
  \<open>worst_for\<close> is the sentinel each loop starts from.
\<close>

definition better_for :: "bool \<Rightarrow> score \<Rightarrow> score \<Rightarrow> bool" where
  "better_for maximizing new old = (if maximizing then score_lt old new else score_lt new old)"

definition worst_for :: "bool \<Rightarrow> score" where
  "worst_for maximizing = (if maximizing then MInf else PInf)"

section \<open>Properties\<close>

lemma length_range1: "length (range1 n) = nat n"
  by (simp add: range1_def)

lemma length_range2: "length (range2 a b) = nat (b - a)"
  by (simp add: range2_def)

lemma length_range2_anti: "length (range2 (K - 1) N) = nat (N - K + 1)"
  by (simp add: range2_def algebra_simps)

lemma length_concat_const:
  "length (concat (map (\<lambda>x. map (f x) ys) xs)) = length xs * length ys"
  by (induction xs) simp_all

lemma length_row_lines: "length (row_lines a) = nat (size' a) * nat (size' a - to_win a + 1)"
  by (simp add: row_lines_def Let_def length_concat_const length_range1)

lemma length_column_lines:
  "length (column_lines a) = nat (size' a) * nat (size' a - to_win a + 1)"
  by (simp add: column_lines_def Let_def length_concat_const length_range1)

lemma length_diagonal_lines:
  "length (diagonal_lines a) = nat (size' a - to_win a + 1) * nat (size' a - to_win a + 1)"
  by (simp add: diagonal_lines_def Let_def length_concat_const length_range1)

lemma length_anti_diagonal_lines:
  "length (anti_diagonal_lines a) =
     nat (size' a - to_win a + 1) * nat (size' a - to_win a + 1)"
  by (simp add: anti_diagonal_lines_def Let_def length_concat_const length_range1
      length_range2_anti)

lemma line_length:
  "l \<in> set (generate_lines a) \<Longrightarrow> length l = nat (to_win a)"
  by (auto simp: generate_lines_def row_lines_def column_lines_def diagonal_lines_def
      anti_diagonal_lines_def Let_def length_range1)

subsection \<open>Facts about \<^verbatim>\<open>get_moves\<close>\<close>

lemma get_moves_filter:
  "get_moves a state maximizing =
     map int (filter (\<lambda>i. state ! i \<noteq> human a \<and> state ! i \<noteq> computer a) [0..<length state])"
proof -
  have "map (\<lambda>(i, v). int i) (filter (\<lambda>(i, v). P v) (enumerate n xs)) =
        map int (filter (\<lambda>i. P (xs ! (i - n))) [n..<n + length xs])" for P :: "string \<Rightarrow> bool" and n xs
  proof (induction xs arbitrary: n)
    case Nil
    show ?case by simp
  next
    case (Cons x xs)
    have "filter (\<lambda>i. P ((x # xs) ! (i - n))) [Suc n..<Suc n + length xs] =
          filter (\<lambda>i. P (xs ! (i - Suc n))) [Suc n..<Suc n + length xs]"
      by (rule filter_cong) (auto simp: nth_Cons')
    then show ?case using Cons.IH [of "Suc n"]
      by (simp add: upt_conv_Cons del: upt_Suc)
  qed
  from this [of "\<lambda>v. \<not> (v = human a \<or> v = computer a)" 0 state]
  show ?thesis by (simp add: get_moves_def)
qed

lemma sorted_get_moves: "sorted_wrt (<) (get_moves a state maximizing)"
  unfolding get_moves_filter
  by (simp add: sorted_wrt_map sorted_wrt_filter strict_sorted_iff[symmetric] )

lemma set_get_moves:
  "set (get_moves a state maximizing) =
     {i. 0 \<le> i \<and> i < int (length state) \<and> state ! nat i \<noteq> human a \<and> state ! nat i \<noteq> computer a}"
  unfolding get_moves_filter
proof (intro set_eqI iffI)
  fix x
  assume "x \<in> set (map int (filter (\<lambda>i. state ! i \<noteq> human a \<and> state ! i \<noteq> computer a)
                        [0..<length state]))"
  then show "x \<in> {i. 0 \<le> i \<and> i < int (length state) \<and> state ! nat i \<noteq> human a
                      \<and> state ! nat i \<noteq> computer a}"
    by auto
next
  fix x
  assume "x \<in> {i. 0 \<le> i \<and> i < int (length state) \<and> state ! nat i \<noteq> human a
                      \<and> state ! nat i \<noteq> computer a}"
  then have "nat x < length state" "state ! nat x \<noteq> human a" "state ! nat x \<noteq> computer a"
    "x = int (nat x)"
    by auto
  then show "x \<in> set (map int (filter (\<lambda>i. state ! i \<noteq> human a \<and> state ! i \<noteq> computer a)
                        [0..<length state]))"
    by (metis (mono_tags, lifting) atLeast0LessThan image_eqI lessThan_iff mem_Collect_eq
        set_filter set_map set_upt)
qed

lemma distinct_get_moves: "distinct (get_moves a state maximizing)"
  using sorted_get_moves strict_sorted_iff by blast

subsection \<open>Line generation\<close>

text \<open>
  Claim C6. For a board size \<open>N\<close> and a run length \<open>K\<close> with \<open>1 \<le> K \<le> N\<close>,
  \<^verbatim>\<open>generate_lines\<close> returns \<open>N * (N - K + 1)\<close> row lines, as many column lines,
  \<open>(N - K + 1)\<^sup>2\<close> diagonal lines and as many anti-diagonal lines, in this order, which
  makes \<open>2 * N * (N - K + 1) + 2 * (N - K + 1)\<^sup>2\<close> lines, and every line holds exactly
  \<open>K\<close> indices.
\<close>

theorem generate_lines_count:
  assumes "1 \<le> to_win a" and "to_win a \<le> size' a"
  shows "generate_lines a =
           row_lines a @ column_lines a @ diagonal_lines a @ anti_diagonal_lines a
       \<and> int (length (row_lines a)) = size' a * (size' a - to_win a + 1)
       \<and> int (length (column_lines a)) = size' a * (size' a - to_win a + 1)
       \<and> int (length (diagonal_lines a)) = (size' a - to_win a + 1)\<^sup>2
       \<and> int (length (anti_diagonal_lines a)) = (size' a - to_win a + 1)\<^sup>2
       \<and> int (length (generate_lines a)) =
           2 * size' a * (size' a - to_win a + 1) + 2 * (size' a - to_win a + 1)\<^sup>2
       \<and> (\<forall>l \<in> set (generate_lines a). int (length l) = to_win a)"
proof -
  have N: "0 \<le> size' a" and M: "0 \<le> size' a - to_win a + 1" and K: "0 \<le> to_win a"
    using assms by simp_all
  have r: "int (length (row_lines a)) = size' a * (size' a - to_win a + 1)"
    using N M by (simp add: length_row_lines)
  have c: "int (length (column_lines a)) = size' a * (size' a - to_win a + 1)"
    using N M by (simp add: length_column_lines)
  have d: "int (length (diagonal_lines a)) = (size' a - to_win a + 1)\<^sup>2"
    using M by (simp add: length_diagonal_lines power2_eq_square)
  have ad: "int (length (anti_diagonal_lines a)) = (size' a - to_win a + 1)\<^sup>2"
    using M by (simp add: length_anti_diagonal_lines power2_eq_square)
  have total: "int (length (generate_lines a)) =
      2 * size' a * (size' a - to_win a + 1) + 2 * (size' a - to_win a + 1)\<^sup>2"
    using r c d ad by (simp add: generate_lines_def)
  have len: "\<forall>l \<in> set (generate_lines a). int (length l) = to_win a"
    using K by (simp add: line_length)
  show ?thesis
    using r c d ad total len by (simp add: generate_lines_def)
qed

theorem generate_lines_count_witness:
  "1 \<le> to_win \<lparr>size' = 4, to_win = 3, human = ''X'', computer = ''O''\<rparr>
   \<and> to_win \<lparr>size' = 4, to_win = 3, human = ''X'', computer = ''O''\<rparr>
       \<le> size' \<lparr>size' = 4, to_win = 3, human = ''X'', computer = ''O''\<rparr>
   \<and> int (length (generate_lines \<lparr>size' = 4, to_win = 3, human = ''X'', computer = ''O''\<rparr>))
       = 24
   \<and> int (length (row_lines \<lparr>size' = 4, to_win = 3, human = ''X'', computer = ''O''\<rparr>)) = 8
   \<and> int (length (diagonal_lines \<lparr>size' = 4, to_win = 3, human = ''X'', computer = ''O''\<rparr>))
       = 4"
  using generate_lines_count [of "\<lparr>size' = 4, to_win = 3, human = ''X'', computer = ''O''\<rparr>"]
  by simp

subsection \<open>Move enumeration\<close>

text \<open>
  Claim C7. \<^verbatim>\<open>get_moves\<close> returns exactly the indices of the cells that hold neither
  the human's nor the computer's mark, in strictly ascending order, and the flag
  \<^verbatim>\<open>maximizing\<close> has no influence on the result.
\<close>

theorem get_moves_free_cells_ascending:
  "get_moves a state maximizing =
     map int (filter (\<lambda>i. state ! i \<noteq> human a \<and> state ! i \<noteq> computer a)
                [0..<length state])
   \<and> set (get_moves a state maximizing) =
       {i. 0 \<le> i \<and> i < int (length state)
           \<and> state ! nat i \<noteq> human a \<and> state ! nat i \<noteq> computer a}
   \<and> sorted_wrt (<) (get_moves a state maximizing)
   \<and> get_moves a state True = get_moves a state False"
  using get_moves_filter [of a state maximizing] set_get_moves [of a state maximizing]
    sorted_get_moves [of a state maximizing]
  by (simp add: get_moves_def)

subsection \<open>Indexing and \<^verbatim>\<open>apply_move\<close>\<close>

lemma list_index_in_range:
  "0 \<le> i \<Longrightarrow> i < int (length xs) \<Longrightarrow> list_index xs i = Inr (nat i)"
  by (simp add: list_index_def)

lemma getitem_in_range:
  "0 \<le> i \<Longrightarrow> i < int (length xs) \<Longrightarrow> getitem xs i = Inr (xs ! nat i)"
  by (simp add: getitem_def list_index_in_range)

lemma setitem_in_range:
  "0 \<le> i \<Longrightarrow> i < int (length xs) \<Longrightarrow> setitem xs i v = Inr (xs[nat i := v])"
  by (simp add: setitem_def list_index_in_range)

lemma apply_move_in_range:
  "0 \<le> move \<Longrightarrow> move < int (length state) \<Longrightarrow>
   apply_move a state move maximizing =
     Inr (state[nat move := (if maximizing then computer a else human a)])"
  by (simp add: apply_move_def setitem_in_range)

lemma get_moves_in_range:
  "move \<in> set (get_moves a state maximizing) \<Longrightarrow> 0 \<le> move \<and> move < int (length state)"
  by (simp add: set_get_moves)

lemma get_moves_free:
  "move \<in> set (get_moves a state maximizing) \<Longrightarrow>
   state ! nat move \<noteq> human a \<and> state ! nat move \<noteq> computer a"
  by (simp add: set_get_moves)

lemma for_loop_single: "for_loop [x] body acc = body x acc"
  by (cases "body x acc") (auto simp: bind_outcome_def split: sum.splits)

text \<open>
  Claim C8. For a move that \<^verbatim>\<open>get_moves\<close> returns, \<^verbatim>\<open>apply_move\<close> returns a board of
  the same length that holds the mover's mark (the computer's when \<^verbatim>\<open>maximizing\<close>, the
  human's otherwise) at the move and the old contents everywhere else, so exactly the
  cell of the move differs. On the store, the result is a newly allocated object, and the
  object passed in, like every other object, keeps its contents.
\<close>

theorem apply_move_frame:
  assumes mv: "move \<in> set (get_moves a state flag)"
    and p: "p < length h" and hp: "h ! p = state"
  shows "apply_move a state move maximizing =
           Inr (state[nat move := (if maximizing then computer a else human a)])
       \<and> apply_move_heap a h p move maximizing =
           Inr (h @ [state[nat move := (if maximizing then computer a else human a)]], length h)
       \<and> (h @ [state[nat move := (if maximizing then computer a else human a)]]) ! p = state
       \<and> (\<forall>q < length h.
             (h @ [state[nat move := (if maximizing then computer a else human a)]]) ! q = h ! q)
       \<and> length (state[nat move := (if maximizing then computer a else human a)]) = length state
       \<and> state[nat move := (if maximizing then computer a else human a)] ! nat move =
           (if maximizing then computer a else human a)
       \<and> state[nat move := (if maximizing then computer a else human a)] ! nat move
           \<noteq> state ! nat move
       \<and> (\<forall>j < length state. j \<noteq> nat move \<longrightarrow>
             state[nat move := (if maximizing then computer a else human a)] ! j = state ! j)"
proof -
  let ?mark = "if maximizing then computer a else human a"
  have r: "0 \<le> move" "move < int (length state)"
    using get_moves_in_range [OF mv] by simp_all
  have free: "state ! nat move \<noteq> human a" "state ! nat move \<noteq> computer a"
    using get_moves_free [OF mv] by simp_all
  have n: "nat move < length state" using r by simp
  have v: "apply_move a state move maximizing = Inr (state[nat move := ?mark])"
    using r by (rule apply_move_in_range)
  have s: "apply_move_heap a h p move maximizing = Inr (h @ [state[nat move := ?mark]], length h)"
    using r hp by (simp add: apply_move_heap_def list_copy_def setitem_in_range)
  have old: "(h @ [state[nat move := ?mark]]) ! p = state"
    using p hp by (simp add: nth_append)
  have diff: "state[nat move := ?mark] ! nat move \<noteq> state ! nat move"
    using n free by auto
  have others: "\<forall>q < length h. (h @ [state[nat move := ?mark]]) ! q = h ! q"
    by (simp add: nth_append)
  show ?thesis
    using v s old others diff n by simp
qed

theorem apply_move_frame_witness:
  "5 \<in> set (get_moves \<lparr>size' = 3, to_win = 3, human = ''X'', computer = ''O''\<rparr>
              [''X'', ''2'', ''3'', ''4'', ''O'', ''6'', ''7'', ''8'', ''9''] False)
   \<and> (0::nat) < length [[''X'', ''2'', ''3'', ''4'', ''O'', ''6'', ''7'', ''8'', ''9'']]
   \<and> apply_move_heap \<lparr>size' = 3, to_win = 3, human = ''X'', computer = ''O''\<rparr>
        [[''X'', ''2'', ''3'', ''4'', ''O'', ''6'', ''7'', ''8'', ''9'']] 0 5 False =
      Inr ([[''X'', ''2'', ''3'', ''4'', ''O'', ''6'', ''7'', ''8'', ''9''],
            [''X'', ''2'', ''3'', ''4'', ''O'', ''X'', ''7'', ''8'', ''9'']], 1)"
proof -
  have m: "5 \<in> set (get_moves \<lparr>size' = 3, to_win = 3, human = ''X'', computer = ''O''\<rparr>
              [''X'', ''2'', ''3'', ''4'', ''O'', ''6'', ''7'', ''8'', ''9''] False)"
    by code_simp
  have p: "(0::nat) < length [[''X'', ''2'', ''3'', ''4'', ''O'', ''6'', ''7'', ''8'', ''9'']]"
    by simp
  have e: "[[''X'', ''2'', ''3'', ''4'', ''O'', ''6'', ''7'', ''8'', ''9'']] ! 0
             = [''X'', ''2'', ''3'', ''4'', ''O'', ''6'', ''7'', ''8'', ''9'']"
    by simp
  show ?thesis
    using m p apply_move_frame [OF m p e, of False] by simp
qed

text \<open>
  Claim C10. \<^verbatim>\<open>apply_move\<close> checks no legality: for every index within the board,
  free or occupied, it returns the copy with that cell overwritten by the mover's mark and
  raises nothing. The engine does not check either: given a move list that names such a
  cell, a search of depth one applies the move and returns it.
\<close>

theorem apply_move_overwrites_unchecked:
  assumes "0 \<le> move" and "move < int (length state)"
  shows "apply_move a state move maximizing =
           Inr (state[nat move := (if maximizing then computer a else human a)])
       \<and> minimax state 1 True (\<lambda>s m. Inr [move]) (apply_move a) (evaluate a) (\<lambda>s. Inr False) =
           Some (map_sum id (\<lambda>v. (Fin v, Some move))
                   (evaluate a (state[nat move := computer a])))"
proof -
  have am: "apply_move a state move maximizing =
           Inr (state[nat move := (if maximizing then computer a else human a)])"
    using assms by (rule apply_move_in_range)
  have amT: "apply_move a state move True = Inr (state[nat move := computer a])"
    using assms apply_move_in_range [of move state a True] by simp
  have child: "minimax (state[nat move := computer a]) 0 False (\<lambda>s m. Inr [move]) (apply_move a)
           (evaluate a) (\<lambda>s. Inr False)
         = Some (map_sum id (\<lambda>v. (Fin v, None)) (evaluate a (state[nat move := computer a])))"
    by (subst minimax.simps) simp
  have "minimax state 1 True (\<lambda>s m. Inr [move]) (apply_move a) (evaluate a) (\<lambda>s. Inr False) =
           Some (map_sum id (\<lambda>v. (Fin v, Some move))
                   (evaluate a (state[nat move := computer a])))"
    by (subst minimax.simps)
       (cases "evaluate a (state[nat move := computer a])";
        simp add: for_loop_single amT child bind_outcome_def)
  with am show ?thesis by simp
qed

theorem apply_move_overwrites_unchecked_witness:
  "(0::int) \<le> 0 \<and> (0::int) < int (length [''X'', ''2'', ''3'', ''4''])
   \<and> apply_move \<lparr>size' = 2, to_win = 2, human = ''X'', computer = ''O''\<rparr>
        [''X'', ''2'', ''3'', ''4''] 0 True = Inr [''O'', ''2'', ''3'', ''4'']"
  using apply_move_overwrites_unchecked
    [of 0 "[''X'', ''2'', ''3'', ''4'']"
        "\<lparr>size' = 2, to_win = 2, human = ''X'', computer = ''O''\<rparr>" True]
  by simp

subsection \<open>Evaluation of decided boards\<close>

text \<open>
  Claim C9. \<^verbatim>\<open>evaluate\<close> tests the computer's win first: on any board, reachable or not,
  where \<^verbatim>\<open>check_winner\<close> holds for both marks it returns \<open>100\<close>, and so it does whenever
  the computer's check holds. The branch returning \<open>- 100\<close> is taken exactly when the
  computer's check is false and the human's is true; when both checks are false the
  result is that of the loop over the generated lines (and is \<open>- 100\<close> only if that sum
  is), and a check that raises makes \<^verbatim>\<open>evaluate\<close> raise.
\<close>

theorem evaluate_computer_win_first:
  "(check_winner state (computer a) (size' a) (to_win a) = Inr True
      \<and> check_winner state (human a) (size' a) (to_win a) = Inr True
      \<longrightarrow> evaluate a state = Inr 100)
   \<and> (check_winner state (human a) (size' a) (to_win a) = Inr True
      \<longrightarrow> (evaluate a state = Inr (- 100)
            \<longleftrightarrow> check_winner state (computer a) (size' a) (to_win a) = Inr False))
   \<and> (check_winner state (computer a) (size' a) (to_win a) = Inr True
      \<longrightarrow> evaluate a state = Inr 100)
   \<and> (check_winner state (computer a) (size' a) (to_win a) = Inr False
      \<and> check_winner state (human a) (size' a) (to_win a) = Inr True
      \<longrightarrow> evaluate a state = Inr (- 100))
   \<and> (check_winner state (computer a) (size' a) (to_win a) = Inr False
      \<and> check_winner state (human a) (size' a) (to_win a) = Inr False
      \<longrightarrow> evaluate a state = score_lines a state (generate_lines a) 0)
   \<and> (check_winner state (computer a) (size' a) (to_win a) = Inl e
      \<longrightarrow> evaluate a state = Inl e)
   \<and> (check_winner state (computer a) (size' a) (to_win a) = Inr False
      \<and> check_winner state (human a) (size' a) (to_win a) = Inl e
      \<longrightarrow> evaluate a state = Inl e)
   \<and> (evaluate a state = Inr (- 100)
      \<longrightarrow> check_winner state (computer a) (size' a) (to_win a) = Inr False
          \<and> (check_winner state (human a) (size' a) (to_win a) = Inr True
             \<or> (check_winner state (human a) (size' a) (to_win a) = Inr False
                \<and> score_lines a state (generate_lines a) 0 = Inr (- 100))))"
  by (auto simp: evaluate_def split: sum.splits if_splits)

theorem evaluate_computer_win_first_witness:
  "check_winner [''O'', ''O'', ''O'', ''X'', ''X'', ''X'', ''7'', ''8'', ''9''] ''O'' 3 3 = Inr True
   \<and> check_winner [''O'', ''O'', ''O'', ''X'', ''X'', ''X'', ''7'', ''8'', ''9''] ''X'' 3 3 = Inr True
   \<and> evaluate \<lparr>size' = 3, to_win = 3, human = ''X'', computer = ''O''\<rparr>
        [''O'', ''O'', ''O'', ''X'', ''X'', ''X'', ''7'', ''8'', ''9''] = Inr 100
   \<and> check_winner [''X'', ''X'', ''X'', ''O'', ''O'', ''6'', ''7'', ''8'', ''9''] ''O'' 3 3 = Inr False
   \<and> check_winner [''X'', ''X'', ''X'', ''O'', ''O'', ''6'', ''7'', ''8'', ''9''] ''X'' 3 3 = Inr True
   \<and> evaluate \<lparr>size' = 3, to_win = 3, human = ''X'', computer = ''O''\<rparr>
        [''X'', ''X'', ''X'', ''O'', ''O'', ''6'', ''7'', ''8'', ''9''] = Inr (- 100)
   \<and> check_winner [''1'', ''2'', ''3'', ''4'', ''O'', ''6'', ''7'', ''8'', ''9''] ''O'' 3 3 = Inr False
   \<and> check_winner [''1'', ''2'', ''3'', ''4'', ''O'', ''6'', ''7'', ''8'', ''9''] ''X'' 3 3 = Inr False
   \<and> score_lines \<lparr>size' = 3, to_win = 3, human = ''X'', computer = ''O''\<rparr>
        [''1'', ''2'', ''3'', ''4'', ''O'', ''6'', ''7'', ''8'', ''9'']
        (generate_lines \<lparr>size' = 3, to_win = 3, human = ''X'', computer = ''O''\<rparr>) 0 = Inr 4
   \<and> evaluate \<lparr>size' = 3, to_win = 3, human = ''X'', computer = ''O''\<rparr>
        [''1'', ''2'', ''3'', ''4'', ''O'', ''6'', ''7'', ''8'', ''9''] = Inr 4
   \<and> check_winner [''X'', ''X'', ''X''] ''O'' 3 3 = Inl IndexError
   \<and> evaluate \<lparr>size' = 3, to_win = 3, human = ''X'', computer = ''O''\<rparr>
        [''X'', ''X'', ''X''] = Inl IndexError
   \<and> check_winner [''1'', ''2'', ''3'', ''4'', ''5'', ''6'', ''X''] ''O'' 3 3 = Inr False
   \<and> check_winner [''1'', ''2'', ''3'', ''4'', ''5'', ''6'', ''X''] ''X'' 3 3 = Inl IndexError
   \<and> evaluate \<lparr>size' = 3, to_win = 3, human = ''X'', computer = ''O''\<rparr>
        [''1'', ''2'', ''3'', ''4'', ''5'', ''6'', ''X''] = Inl IndexError"
proof -
  let ?a = "\<lparr>size' = 3, to_win = 3, human = ''X'', computer = ''O''\<rparr>"
  let ?both = "[''O'', ''O'', ''O'', ''X'', ''X'', ''X'', ''7'', ''8'', ''9'']"
  let ?hum = "[''X'', ''X'', ''X'', ''O'', ''O'', ''6'', ''7'', ''8'', ''9'']"
  let ?open = "[''1'', ''2'', ''3'', ''4'', ''O'', ''6'', ''7'', ''8'', ''9'']"
  let ?short = "[''X'', ''X'', ''X'']"
  let ?cut = "[''1'', ''2'', ''3'', ''4'', ''5'', ''6'', ''X'']"
  have b: "check_winner ?both ''O'' 3 3 = Inr True" "check_winner ?both ''X'' 3 3 = Inr True"
    by code_simp+
  have h: "check_winner ?hum ''O'' 3 3 = Inr False" "check_winner ?hum ''X'' 3 3 = Inr True"
    by code_simp+
  have n: "check_winner ?open ''O'' 3 3 = Inr False" "check_winner ?open ''X'' 3 3 = Inr False"
    by code_simp+
  have sl: "score_lines ?a ?open (generate_lines ?a) 0 = Inr 4"
    by code_simp
  have s: "check_winner ?short ''O'' 3 3 = Inl IndexError"
    by code_simp
  have c: "check_winner ?cut ''O'' 3 3 = Inr False" "check_winner ?cut ''X'' 3 3 = Inl IndexError"
    by code_simp+
  show ?thesis
    using b h n sl s c
      evaluate_computer_win_first [of ?both ?a]
      evaluate_computer_win_first [of ?hum ?a]
      evaluate_computer_win_first [of ?open ?a]
      evaluate_computer_win_first [of ?short ?a IndexError]
      evaluate_computer_win_first [of ?cut ?a IndexError]
    by simp
qed

subsection \<open>Win detection against the generated lines\<close>

lemma set_range1: "set (range1 n) = {i. 0 \<le> i \<and> i < n}"
  by (auto simp: range1_def)

lemma set_range2: "set (range2 a b) = {i. a \<le> i \<and> i < b}"
  by (auto simp: range2_def)

lemma cell_index_bounds:
  fixes r x N :: int
  assumes "0 \<le> r" and "r < N" and "0 \<le> x" and "x < N"
  shows "0 \<le> r * N + x \<and> r * N + x < N * N"
proof -
  have N: "0 \<le> N" using assms by simp
  have "0 \<le> r * N" using assms(1) N by simp
  then have lo: "0 \<le> r * N + x" using assms(3) by simp
  have "r * N + x < r * N + N" using assms(4) by simp
  also have "\<dots> = (r + 1) * N" by (simp add: algebra_simps)
  also have "\<dots> \<le> N * N" using assms(2) N by (intro mult_right_mono) simp_all
  finally show ?thesis using lo by simp
qed

lemma row_lines_bounds:
  "l \<in> set (row_lines a) \<Longrightarrow> i \<in> set l \<Longrightarrow> 0 \<le> i \<and> i < size' a * size' a"
  using cell_index_bounds [of _ "size' a"]
  by (fastforce simp: row_lines_def Let_def set_range1 add.assoc)

lemma column_lines_bounds:
  "l \<in> set (column_lines a) \<Longrightarrow> i \<in> set l \<Longrightarrow> 0 \<le> i \<and> i < size' a * size' a"
  using cell_index_bounds [of _ "size' a"]
  by (fastforce simp: column_lines_def Let_def set_range1)

lemma diagonal_lines_bounds:
  "l \<in> set (diagonal_lines a) \<Longrightarrow> i \<in> set l \<Longrightarrow> 0 \<le> i \<and> i < size' a * size' a"
  using cell_index_bounds [of _ "size' a"]
  by (fastforce simp: diagonal_lines_def Let_def set_range1)

lemma anti_diagonal_lines_bounds:
  "l \<in> set (anti_diagonal_lines a) \<Longrightarrow> i \<in> set l \<Longrightarrow> 0 \<le> i \<and> i < size' a * size' a"
  using cell_index_bounds [of _ "size' a"]
  by (fastforce simp: anti_diagonal_lines_def Let_def set_range1 set_range2)

lemma generate_lines_bounds:
  "l \<in> set (generate_lines a) \<Longrightarrow> i \<in> set l \<Longrightarrow> 0 \<le> i \<and> i < size' a * size' a"
  using row_lines_bounds column_lines_bounds diagonal_lines_bounds anti_diagonal_lines_bounds
  by (auto simp: generate_lines_def)

lemma all_equal_in_range:
  "\<forall>i \<in> set w. 0 \<le> i \<and> i < int (length board) \<Longrightarrow>
   all_equal board player w = Inr (\<forall>i \<in> set w. board ! nat i = player)"
  by (induction w) (auto simp: getitem_in_range)

lemma scan_windows_in_range:
  "\<forall>w \<in> set ws. \<forall>i \<in> set w. 0 \<le> i \<and> i < int (length board) \<Longrightarrow>
   scan_windows board player ws = Inr (\<exists>w \<in> set ws. \<forall>i \<in> set w. board ! nat i = player)"
  by (induction ws) (auto simp: all_equal_in_range)

lemma check_winner_scans:
  "check_winner board player (size' a) (to_win a) =
     (case scan_windows board player (row_lines a) of
        Inl e \<Rightarrow> Inl e
      | Inr True \<Rightarrow> Inr True
      | Inr False \<Rightarrow>
     (case scan_windows board player (column_lines a) of
        Inl e \<Rightarrow> Inl e
      | Inr True \<Rightarrow> Inr True
      | Inr False \<Rightarrow>
     (case scan_windows board player (diagonal_lines a) of
        Inl e \<Rightarrow> Inl e
      | Inr True \<Rightarrow> Inr True
      | Inr False \<Rightarrow>
     (case scan_windows board player (anti_diagonal_lines a) of
        Inl e \<Rightarrow> Inl e
      | Inr True \<Rightarrow> Inr True
      | Inr False \<Rightarrow> Inr False))))"
  unfolding check_winner_def row_lines_def column_lines_def diagonal_lines_def
    anti_diagonal_lines_def Let_def
  by (rule refl)

lemma check_winner_lines:
  assumes len: "length board = nat (size' a * size' a)"
  shows "check_winner board player (size' a) (to_win a) =
           Inr (\<exists>line \<in> set (generate_lines a). \<forall>i \<in> set line. board ! nat i = player)"
proof -
  have inr: "\<forall>l \<in> set (generate_lines a). \<forall>i \<in> set l. 0 \<le> i \<and> i < int (length board)"
    using generate_lines_bounds [of _ a] len by fastforce
  have r: "scan_windows board player (row_lines a) =
      Inr (\<exists>w \<in> set (row_lines a). \<forall>i \<in> set w. board ! nat i = player)"
    using inr by (intro scan_windows_in_range) (auto simp: generate_lines_def)
  have c: "scan_windows board player (column_lines a) =
      Inr (\<exists>w \<in> set (column_lines a). \<forall>i \<in> set w. board ! nat i = player)"
    using inr by (intro scan_windows_in_range) (auto simp: generate_lines_def)
  have d: "scan_windows board player (diagonal_lines a) =
      Inr (\<exists>w \<in> set (diagonal_lines a). \<forall>i \<in> set w. board ! nat i = player)"
    using inr by (intro scan_windows_in_range) (auto simp: generate_lines_def)
  have ad: "scan_windows board player (anti_diagonal_lines a) =
      Inr (\<exists>w \<in> set (anti_diagonal_lines a). \<forall>i \<in> set w. board ! nat i = player)"
    using inr by (intro scan_windows_in_range) (auto simp: generate_lines_def)
  show ?thesis
    unfolding check_winner_scans r c d ad
    by (auto simp: generate_lines_def split: bool.splits)
qed

text \<open>
  Claim C5. On a board of \<open>size * size\<close> cells and for \<open>1 \<le> to_win \<le> size\<close>,
  \<^verbatim>\<open>check_winner\<close> returns true if and only if some line returned by
  \<^verbatim>\<open>generate_lines\<close> for the same size and run length holds the player's mark at every
  index: the window scan and the materialised lines agree on what a win is.
\<close>

theorem check_winner_agrees_with_generate_lines:
  assumes "length board = nat (size' a * size' a)"
    and "1 \<le> to_win a" and "to_win a \<le> size' a"
  shows "check_winner board player (size' a) (to_win a) =
           Inr (\<exists>line \<in> set (generate_lines a). \<forall>i \<in> set line. board ! nat i = player)"
  using assms(1) by (rule check_winner_lines)

theorem check_winner_agrees_with_generate_lines_witness:
  "length [''X'', ''O'', ''X'', ''O'', ''X'', ''6'', ''X'', ''8'', ''O''] =
     nat (size' \<lparr>size' = 3, to_win = 3, human = ''X'', computer = ''O''\<rparr>
          * size' \<lparr>size' = 3, to_win = 3, human = ''X'', computer = ''O''\<rparr>)
   \<and> 1 \<le> to_win \<lparr>size' = 3, to_win = 3, human = ''X'', computer = ''O''\<rparr>
   \<and> to_win \<lparr>size' = 3, to_win = 3, human = ''X'', computer = ''O''\<rparr>
       \<le> size' \<lparr>size' = 3, to_win = 3, human = ''X'', computer = ''O''\<rparr>
   \<and> check_winner [''X'', ''O'', ''X'', ''O'', ''X'', ''6'', ''X'', ''8'', ''O''] ''X'' 3 3 = Inr True
   \<and> (\<exists>line \<in> set (generate_lines \<lparr>size' = 3, to_win = 3, human = ''X'', computer = ''O''\<rparr>).
        \<forall>i \<in> set line.
          [''X'', ''O'', ''X'', ''O'', ''X'', ''6'', ''X'', ''8'', ''O''] ! nat i = ''X'')"
proof -
  have cw: "check_winner [''X'', ''O'', ''X'', ''O'', ''X'', ''6'', ''X'', ''8'', ''O''] ''X'' 3 3
              = Inr True"
    by code_simp
  show ?thesis
    using cw check_winner_agrees_with_generate_lines
      [of "[''X'', ''O'', ''X'', ''O'', ''X'', ''6'', ''X'', ''8'', ''O'']"
          "\<lparr>size' = 3, to_win = 3, human = ''X'', computer = ''O''\<rparr>" "''X''"]
    by simp
qed

subsection \<open>Static evaluation\<close>

lemma count_marks_in_range:
  "\<forall>i \<in> set line. 0 \<le> i \<and> i < int (length state) \<Longrightarrow>
   count_marks state mark line = Inr (marks_in_line state mark line)"
  by (induction line) (auto simp: getitem_in_range marks_in_line_def)

lemma score_lines_in_range:
  "\<forall>l \<in> set lines. \<forall>i \<in> set l. 0 \<le> i \<and> i < int (length state) \<Longrightarrow>
   score_lines a state lines score =
     Inr (score + sum_list (map (line_value_spec a state) lines))"
proof (induction lines arbitrary: score)
  case Nil
  show ?case by simp
next
  case (Cons l lines)
  have c: "count_marks state (computer a) l = Inr (marks_in_line state (computer a) l)"
    and h: "count_marks state (human a) l = Inr (marks_in_line state (human a) l)"
    using Cons.prems by (simp_all add: count_marks_in_range)
  have nonneg: "0 \<le> marks_in_line state (computer a) l" "0 \<le> marks_in_line state (human a) l"
    by (simp_all add: marks_in_line_def)
  have ih: "\<And>s. score_lines a state lines s =
      Inr (s + sum_list (map (line_value_spec a state) lines))"
    using Cons.prems by (intro Cons.IH) simp
  have step: "score_lines a state (l # lines) score =
      score_lines a state lines (score + line_value_spec a state l)"
    using nonneg by (simp add: c h line_value_spec_def)
  show ?case
    unfolding step ih by simp
qed

lemma generate_lines_in_board:
  "length state = nat (size' a * size' a) \<Longrightarrow>
   \<forall>l \<in> set (generate_lines a). \<forall>i \<in> set l. 0 \<le> i \<and> i < int (length state)"
  using generate_lines_bounds [of _ a] by fastforce

lemma evaluate_wf:
  assumes len: "length state = nat (size' a * size' a)"
  shows "evaluate a state =
     Inr (if check_winner state (computer a) (size' a) (to_win a) = Inr True then 100
          else if check_winner state (human a) (size' a) (to_win a) = Inr True then - 100
          else heuristic_spec a state)"
proof -
  have s: "score_lines a state (generate_lines a) 0 = Inr (heuristic_spec a state)"
    using generate_lines_in_board [OF len]
    by (simp add: score_lines_in_range heuristic_spec_def)
  obtain cw hw where c: "check_winner state (computer a) (size' a) (to_win a) = Inr cw"
    and h: "check_winner state (human a) (size' a) (to_win a) = Inr hw"
    using check_winner_lines [OF len] by blast
  show ?thesis
    by (simp add: evaluate_def c h s)
qed

text \<open>
  Claim C4. On a board of \<open>size * size\<close> cells, \<^verbatim>\<open>evaluate\<close> returns \<open>100\<close> whenever
  \<^verbatim>\<open>check_winner\<close> holds for the computer's mark, \<open>- 100\<close> whenever it holds for the
  human's mark, and otherwise the sum over the generated lines of the number of computer
  marks of each line with a computer mark and no human mark, minus the number of human
  marks of each line with a human mark and no computer mark, every other line counting
  zero. The two checks are made in this order; they hold together on no board that
  alternating moves produce.
\<close>

theorem evaluate_cases:
  assumes "length state = nat (size' a * size' a)"
  shows "evaluate a state =
     Inr (if check_winner state (computer a) (size' a) (to_win a) = Inr True then 100
          else if check_winner state (human a) (size' a) (to_win a) = Inr True then - 100
          else heuristic_spec a state)
   \<and> (\<not> (check_winner state (computer a) (size' a) (to_win a) = Inr True
           \<and> check_winner state (human a) (size' a) (to_win a) = Inr True) \<longrightarrow>
        (check_winner state (computer a) (size' a) (to_win a) = Inr True
           \<longrightarrow> evaluate a state = Inr 100)
      \<and> (check_winner state (human a) (size' a) (to_win a) = Inr True
           \<longrightarrow> evaluate a state = Inr (- 100))
      \<and> (check_winner state (computer a) (size' a) (to_win a) = Inr False
           \<and> check_winner state (human a) (size' a) (to_win a) = Inr False
           \<longrightarrow> evaluate a state = Inr (heuristic_spec a state)))"
  using evaluate_wf [OF assms] by auto

theorem evaluate_cases_witness:
  "length [''O'', ''O'', ''3'', ''X'', ''5'', ''6'', ''7'', ''8'', ''9''] =
     nat (size' \<lparr>size' = 3, to_win = 3, human = ''X'', computer = ''O''\<rparr>
          * size' \<lparr>size' = 3, to_win = 3, human = ''X'', computer = ''O''\<rparr>)
   \<and> check_winner [''O'', ''O'', ''3'', ''X'', ''5'', ''6'', ''7'', ''8'', ''9''] ''O'' 3 3 = Inr False
   \<and> check_winner [''O'', ''O'', ''3'', ''X'', ''5'', ''6'', ''7'', ''8'', ''9''] ''X'' 3 3 = Inr False
   \<and> evaluate \<lparr>size' = 3, to_win = 3, human = ''X'', computer = ''O''\<rparr>
        [''O'', ''O'', ''3'', ''X'', ''5'', ''6'', ''7'', ''8'', ''9''] = Inr 3
   \<and> heuristic_spec \<lparr>size' = 3, to_win = 3, human = ''X'', computer = ''O''\<rparr>
        [''O'', ''O'', ''3'', ''X'', ''5'', ''6'', ''7'', ''8'', ''9''] = 3
   \<and> check_winner [''O'', ''O'', ''O'', ''X'', ''X'', ''6'', ''7'', ''X'', ''9''] ''O'' 3 3 = Inr True
   \<and> check_winner [''O'', ''O'', ''O'', ''X'', ''X'', ''6'', ''7'', ''X'', ''9''] ''X'' 3 3 = Inr False
   \<and> evaluate \<lparr>size' = 3, to_win = 3, human = ''X'', computer = ''O''\<rparr>
        [''O'', ''O'', ''O'', ''X'', ''X'', ''6'', ''7'', ''X'', ''9''] = Inr 100
   \<and> check_winner [''X'', ''O'', ''O'', ''4'', ''X'', ''6'', ''7'', ''8'', ''X''] ''O'' 3 3 = Inr False
   \<and> check_winner [''X'', ''O'', ''O'', ''4'', ''X'', ''6'', ''7'', ''8'', ''X''] ''X'' 3 3 = Inr True
   \<and> evaluate \<lparr>size' = 3, to_win = 3, human = ''X'', computer = ''O''\<rparr>
        [''X'', ''O'', ''O'', ''4'', ''X'', ''6'', ''7'', ''8'', ''X''] = Inr (- 100)"
proof -
  let ?a = "\<lparr>size' = 3, to_win = 3, human = ''X'', computer = ''O''\<rparr>"
  let ?open = "[''O'', ''O'', ''3'', ''X'', ''5'', ''6'', ''7'', ''8'', ''9'']"
  let ?com = "[''O'', ''O'', ''O'', ''X'', ''X'', ''6'', ''7'', ''X'', ''9'']"
  let ?hum = "[''X'', ''O'', ''O'', ''4'', ''X'', ''6'', ''7'', ''8'', ''X'']"
  have e: "evaluate ?a ?open = Inr 3"
    by code_simp
  have n: "check_winner ?open ''O'' 3 3 = Inr False" "check_winner ?open ''X'' 3 3 = Inr False"
    by code_simp+
  have c: "check_winner ?com ''O'' 3 3 = Inr True" "check_winner ?com ''X'' 3 3 = Inr False"
    by code_simp+
  have h: "check_winner ?hum ''O'' 3 3 = Inr False" "check_winner ?hum ''X'' 3 3 = Inr True"
    by code_simp+
  show ?thesis
    using e n c h evaluate_cases [of ?open ?a] evaluate_cases [of ?com ?a]
      evaluate_cases [of ?hum ?a]
    by simp
qed

subsection \<open>The loops of the engine\<close>

lemma better_for_asym: "better_for mx x y \<Longrightarrow> \<not> better_for mx y x"
  by (cases x; cases y; cases mx) (auto simp: better_for_def)

lemma better_for_negtrans:
  "\<not> better_for mx x y \<Longrightarrow> \<not> better_for mx y z \<Longrightarrow> \<not> better_for mx x z"
  by (cases x; cases y; cases z; cases mx) (auto simp: better_for_def)

lemma better_for_worst: "s \<noteq> worst_for mx \<Longrightarrow> better_for mx s (worst_for mx)"
  by (cases s; cases mx) (auto simp: better_for_def worst_for_def)

lemma better_for_irrefl: "\<not> better_for mx x x"
  using better_for_asym by blast

lemma better_for_trans:
  "better_for mx x y \<Longrightarrow> better_for mx y z \<Longrightarrow> better_for mx x z"
  using better_for_asym better_for_negtrans by blast

lemma better_for_less_le:
  "better_for mx x y \<Longrightarrow> \<not> better_for mx z y \<Longrightarrow> better_for mx x z"
  using better_for_negtrans by blast

lemma select_best_first:
  assumes "select_best (better_for mx) sc moves (bs, bm) = (bs', bm')"
  shows "(\<forall>m \<in> set moves. \<not> better_for mx (sc m) bs') \<and> \<not> better_for mx bs bs'
       \<and> ((bs' = bs \<and> bm' = bm)
          \<or> (\<exists>pre m post. moves = pre @ m # post \<and> bm' = Some m \<and> bs' = sc m
                \<and> better_for mx bs' bs \<and> (\<forall>m' \<in> set pre. better_for mx bs' (sc m'))))"
  using assms
proof (induction moves arbitrary: bs bm)
  case Nil
  then show ?case by (simp add: better_for_irrefl)
next
  case (Cons x moves)
  show ?case
  proof (cases "better_for mx (sc x) bs")
    case True
    then have sel: "select_best (better_for mx) sc moves (sc x, Some x) = (bs', bm')"
      using Cons.prems by simp
    note ih = Cons.IH [OF sel]
    have le: "\<not> better_for mx (sc x) bs'" using ih by simp
    have a: "\<forall>m \<in> set (x # moves). \<not> better_for mx (sc m) bs'"
      using ih by simp
    have b: "\<not> better_for mx bs bs'"
      using True le better_for_asym better_for_negtrans by blast
    from ih have "(bs' = sc x \<and> bm' = Some x)
          \<or> (\<exists>pre m post. moves = pre @ m # post \<and> bm' = Some m \<and> bs' = sc m
                \<and> better_for mx bs' (sc x) \<and> (\<forall>m' \<in> set pre. better_for mx bs' (sc m')))"
      by simp
    then have c: "\<exists>pre m post. x # moves = pre @ m # post \<and> bm' = Some m \<and> bs' = sc m
                \<and> better_for mx bs' bs \<and> (\<forall>m' \<in> set pre. better_for mx bs' (sc m'))"
    proof
      assume "bs' = sc x \<and> bm' = Some x"
      then have "x # moves = [] @ x # moves \<and> bm' = Some x \<and> bs' = sc x
                \<and> better_for mx bs' bs \<and> (\<forall>m' \<in> set []. better_for mx bs' (sc m'))"
        using True by simp
      then show ?thesis by blast
    next
      assume "\<exists>pre m post. moves = pre @ m # post \<and> bm' = Some m \<and> bs' = sc m
                \<and> better_for mx bs' (sc x) \<and> (\<forall>m' \<in> set pre. better_for mx bs' (sc m'))"
      then obtain pre m post where p: "moves = pre @ m # post" "bm' = Some m" "bs' = sc m"
        "better_for mx bs' (sc x)" "\<forall>m' \<in> set pre. better_for mx bs' (sc m')"
        by blast
      have "better_for mx bs' bs" using p(4) True by (rule better_for_trans)
      then have "x # moves = (x # pre) @ m # post \<and> bm' = Some m \<and> bs' = sc m
                \<and> better_for mx bs' bs \<and> (\<forall>m' \<in> set (x # pre). better_for mx bs' (sc m'))"
        using p by simp
      then show ?thesis by blast
    qed
    show ?thesis using a b c by blast
  next
    case False
    then have sel: "select_best (better_for mx) sc moves (bs, bm) = (bs', bm')"
      using Cons.prems by simp
    note ih = Cons.IH [OF sel]
    have b: "\<not> better_for mx bs bs'" using ih by simp
    have "\<not> better_for mx (sc x) bs'"
      using False b by (rule better_for_negtrans)
    then have a: "\<forall>m \<in> set (x # moves). \<not> better_for mx (sc m) bs'"
      using ih by simp
    from ih have "(bs' = bs \<and> bm' = bm)
          \<or> (\<exists>pre m post. moves = pre @ m # post \<and> bm' = Some m \<and> bs' = sc m
                \<and> better_for mx bs' bs \<and> (\<forall>m' \<in> set pre. better_for mx bs' (sc m')))"
      by simp
    then have c: "(bs' = bs \<and> bm' = bm)
          \<or> (\<exists>pre m post. x # moves = pre @ m # post \<and> bm' = Some m \<and> bs' = sc m
                \<and> better_for mx bs' bs \<and> (\<forall>m' \<in> set pre. better_for mx bs' (sc m')))"
    proof
      assume "bs' = bs \<and> bm' = bm"
      then show ?thesis by simp
    next
      assume "\<exists>pre m post. moves = pre @ m # post \<and> bm' = Some m \<and> bs' = sc m
                \<and> better_for mx bs' bs \<and> (\<forall>m' \<in> set pre. better_for mx bs' (sc m'))"
      then obtain pre m post where p: "moves = pre @ m # post" "bm' = Some m" "bs' = sc m"
        "better_for mx bs' bs" "\<forall>m' \<in> set pre. better_for mx bs' (sc m')"
        by blast
      have "better_for mx bs' (sc x)" using p(4) False by (rule better_for_less_le)
      then have "x # moves = (x # pre) @ m # post \<and> bm' = Some m \<and> bs' = sc m
                \<and> better_for mx bs' bs \<and> (\<forall>m' \<in> set (x # pre). better_for mx bs' (sc m'))"
        using p by simp
      then show ?thesis by blast
    qed
    show ?thesis using a b c by blast
  qed
qed


lemma bind_outcome_Some_Inr [simp]: "bind_outcome (Some (Inr v)) k = k v"
  by (simp add: bind_outcome_def)

lemma bind_outcome_eq_Some_Inr:
  "bind_outcome m k = Some (Inr r) \<longleftrightarrow> (\<exists>v. m = Some (Inr v) \<and> k v = Some (Inr r))"
  by (auto simp: bind_outcome_def split: option.splits sum.splits)

lemma for_loop_known:
  assumes "\<forall>m \<in> set moves. \<exists>ns r. am m = Inr ns \<and> child ns = Some (Inr (sc m, r))"
  shows "for_loop moves
           (\<lambda>move (bs, bm).
              case am move of
                Inl e \<Rightarrow> Some (Inl e)
              | Inr ns \<Rightarrow>
                  bind_outcome (child ns)
                    (\<lambda>(score, _). if better score bs then Some (Inr (score, Some move))
                                   else Some (Inr (bs, bm))))
           acc
         = Some (Inr (select_best better sc moves acc))"
  using assms
proof (induction moves arbitrary: acc)
  case Nil
  show ?case by simp
next
  case (Cons x moves)
  obtain ns r where x: "am x = Inr ns" "child ns = Some (Inr (sc x, r))"
    using Cons.prems by auto
  obtain bs bm where acc: "acc = (bs, bm)" by (cases acc)
  have rest: "\<forall>m \<in> set moves. \<exists>ns r. am m = Inr ns \<and> child ns = Some (Inr (sc m, r))"
    using Cons.prems by simp
  show ?case
    by (simp add: acc x Cons.IH [OF rest])
qed

lemma for_loop_returns:
  assumes "for_loop moves
           (\<lambda>move (bs, bm).
              case am move of
                Inl e \<Rightarrow> Some (Inl e)
              | Inr ns \<Rightarrow>
                  bind_outcome (child ns)
                    (\<lambda>(score, _). if better score bs then Some (Inr (score, Some move))
                                   else Some (Inr (bs, bm))))
           acc
         = Some (Inr res)"
  shows "\<forall>m \<in> set moves. \<exists>s. \<exists>ns r. am m = Inr ns \<and> child ns = Some (Inr (s, r))"
  using assms
proof (induction moves arbitrary: acc)
  case Nil
  show ?case by simp
next
  case (Cons x moves)
  obtain bs bm where acc: "acc = (bs, bm)" by (cases acc)
  from Cons.prems obtain acc1 where
    step: "(case am x of
                Inl e \<Rightarrow> Some (Inl e)
              | Inr ns \<Rightarrow>
                  bind_outcome (child ns)
                    (\<lambda>(score, _). if better score bs then Some (Inr (score, Some x))
                                   else Some (Inr (bs, bm)))) = Some (Inr acc1)"
    and rest: "for_loop moves
           (\<lambda>move (bs, bm).
              case am move of
                Inl e \<Rightarrow> Some (Inl e)
              | Inr ns \<Rightarrow>
                  bind_outcome (child ns)
                    (\<lambda>(score, _). if better score bs then Some (Inr (score, Some move))
                                   else Some (Inr (bs, bm))))
           acc1
         = Some (Inr res)"
    by (auto simp: acc bind_outcome_eq_Some_Inr)
  from step obtain ns where ns: "am x = Inr ns" by (cases "am x") auto
  from step ns obtain v where "child ns = Some (Inr v)"
    by (auto simp: bind_outcome_eq_Some_Inr)
  then have "\<exists>s. \<exists>ns r. am x = Inr ns \<and> child ns = Some (Inr (s, r))"
    using ns by (cases v) auto
  then show ?case using Cons.IH [OF rest] by simp
qed

lemma minimax_leaf:
  "depth = 0 \<or> it state = Inr True \<Longrightarrow>
   minimax state depth mx gm am ev it = Some (map_sum id (\<lambda>v. (Fin v, None)) (ev state))"
  by (subst minimax.simps) auto

lemma minimax_rec_max:
  assumes "depth \<noteq> 0" and "it state = Inr False" and "gm state True = Inr moves"
  shows "minimax state depth True gm am ev it =
     for_loop moves
       (\<lambda>move (bs, bm).
          case am state move True of
            Inl e \<Rightarrow> Some (Inl e)
          | Inr ns \<Rightarrow>
              bind_outcome (minimax ns (depth - 1) (\<not> True) gm am ev it)
                (\<lambda>(score, _). if better_for True score bs then Some (Inr (score, Some move))
                               else Some (Inr (bs, bm))))
       (worst_for True, None)"
  unfolding better_for_def worst_for_def if_True not_True_eq_False
  by (subst minimax.simps) (simp add: assms)

lemma minimax_rec_min:
  assumes "depth \<noteq> 0" and "it state = Inr False" and "gm state False = Inr moves"
  shows "minimax state depth False gm am ev it =
     for_loop moves
       (\<lambda>move (bs, bm).
          case am state move False of
            Inl e \<Rightarrow> Some (Inl e)
          | Inr ns \<Rightarrow>
              bind_outcome (minimax ns (depth - 1) (\<not> False) gm am ev it)
                (\<lambda>(score, _). if better_for False score bs then Some (Inr (score, Some move))
                               else Some (Inr (bs, bm))))
       (worst_for False, None)"
  unfolding better_for_def worst_for_def if_False not_False_eq_True
  by (subst minimax.simps) (simp add: assms)

lemma minimax_rec:
  assumes "depth \<noteq> 0" and "it state = Inr False" and "gm state mx = Inr moves"
  shows "minimax state depth mx gm am ev it =
     for_loop moves
       (\<lambda>move (bs, bm).
          case am state move mx of
            Inl e \<Rightarrow> Some (Inl e)
          | Inr ns \<Rightarrow>
              bind_outcome (minimax ns (depth - 1) (\<not> mx) gm am ev it)
                (\<lambda>(score, _). if better_for mx score bs then Some (Inr (score, Some move))
                               else Some (Inr (bs, bm))))
       (worst_for mx, None)"
proof (cases mx)
  case True
  then have eq: "mx = True" by simp
  show ?thesis
    using assms unfolding eq by (rule minimax_rec_max)
next
  case False
  then have eq: "mx = False" by simp
  show ?thesis
    using assms unfolding eq by (rule minimax_rec_min)
qed

lemma minimax_rec_select:
  assumes "depth \<noteq> 0" and "it state = Inr False" and "gm state mx = Inr moves"
    and "\<forall>m \<in> set moves. \<exists>ns r. am state m mx = Inr ns
           \<and> minimax ns (depth - 1) (\<not> mx) gm am ev it = Some (Inr (sc m, r))"
  shows "minimax state depth mx gm am ev it =
           Some (Inr (select_best (better_for mx) sc moves (worst_for mx, None)))"
  unfolding minimax_rec [where it = it and state = state and gm = gm, OF assms(1-3)]
  using assms(4) by (rule for_loop_known)

lemma minimax_rec_children:
  assumes "depth \<noteq> 0" and "it state = Inr False" and "gm state mx = Inr moves"
    and "minimax state depth mx gm am ev it = Some (Inr res)"
  shows "\<exists>sc. \<forall>m \<in> set moves. \<exists>ns r. am state m mx = Inr ns
           \<and> minimax ns (depth - 1) (\<not> mx) gm am ev it = Some (Inr (sc m, r))"
proof -
  have "\<forall>m \<in> set moves. \<exists>s. \<exists>ns r. am state m mx = Inr ns
           \<and> minimax ns (depth - 1) (\<not> mx) gm am ev it = Some (Inr (s, r))"
    using assms(4) unfolding minimax_rec [where it = it and state = state and gm = gm, OF assms(1-3)] by (rule for_loop_returns)
  then show ?thesis by (rule bchoice)
qed

text \<open>
  With callbacks that return (rather than raise) and a depth that is not negative, the
  engine returns: the recursion is bounded by the depth.
\<close>

lemma minimax_returns:
  assumes gm: "\<forall>s b. \<exists>ms. gm s b = Inr ms" and am: "\<forall>s m b. \<exists>ns. am s m b = Inr ns"
    and ev: "\<forall>s. \<exists>v. ev s = Inr v" and it: "\<forall>s. \<exists>t. it s = Inr t"
  shows "0 \<le> depth \<Longrightarrow> \<exists>best bm. minimax state depth mx gm am ev it = Some (Inr (best, bm))"
proof (induction "nat depth" arbitrary: state depth mx rule: less_induct)
  case less
  obtain v where v: "ev state = Inr v" using ev by blast
  obtain t where t: "it state = Inr t" using it by blast
  show ?case
  proof (cases "depth = 0 \<or> t")
    case True
    then have "depth = 0 \<or> it state = Inr True" using t by auto
    then show ?thesis by (simp add: minimax_leaf v)
  next
    case False
    then have d: "depth \<noteq> 0" and t': "it state = Inr False" using t by auto
    obtain moves where g: "gm state mx = Inr moves" using gm by blast
    have kids: "\<forall>m \<in> set moves. \<exists>s. \<exists>ns r. am state m mx = Inr ns
        \<and> minimax ns (depth - 1) (\<not> mx) gm am ev it = Some (Inr (s, r))"
    proof
      fix m assume "m \<in> set moves"
      obtain ns where ns: "am state m mx = Inr ns" using am by blast
      have lt: "nat (depth - 1) < nat depth" and nn: "0 \<le> depth - 1"
        using less.prems d by simp_all
      obtain s r where "minimax ns (depth - 1) (\<not> mx) gm am ev it = Some (Inr (s, r))"
        using less.hyps [OF lt nn, of ns "\<not> mx"] by auto
      then show "\<exists>s. \<exists>ns r. am state m mx = Inr ns
        \<and> minimax ns (depth - 1) (\<not> mx) gm am ev it = Some (Inr (s, r))"
        using ns by auto
    qed
    obtain sc where "\<forall>m \<in> set moves. \<exists>ns r. am state m mx = Inr ns
        \<and> minimax ns (depth - 1) (\<not> mx) gm am ev it = Some (Inr (sc m, r))"
      using bchoice [OF kids] by blast
    from minimax_rec_select [OF d t' g this] show ?thesis
      by (cases "select_best (better_for mx) sc moves (worst_for mx, None)") simp
  qed
qed

subsection \<open>The search on Tic-Tac-Toe boards returns\<close>

lemma get_moves_empty_iff:
  "get_moves a state mx = [] \<longleftrightarrow> list_all (\<lambda>v. v = human a \<or> v = computer a) state"
proof -
  have "get_moves a state mx = [] \<longleftrightarrow> set (get_moves a state mx) = {}"
    by simp
  also have "\<dots> \<longleftrightarrow> (\<forall>n < length state. state ! n = human a \<or> state ! n = computer a)"
  proof
    assume e: "set (get_moves a state mx) = {}"
    show "\<forall>n < length state. state ! n = human a \<or> state ! n = computer a"
    proof (intro allI impI)
      fix n assume "n < length state"
      then have "int n \<notin> set (get_moves a state mx) \<Longrightarrow>
          state ! n = human a \<or> state ! n = computer a"
        by (auto simp: set_get_moves)
      then show "state ! n = human a \<or> state ! n = computer a"
        using e by simp
    qed
  next
    assume "\<forall>n < length state. state ! n = human a \<or> state ! n = computer a"
    then show "set (get_moves a state mx) = {}"
      by (auto simp: set_get_moves)
  qed
  finally show ?thesis by (simp add: list_all_length)
qed

lemma is_terminal_wf:
  assumes len: "length state = nat (size' a * size' a)"
  shows "is_terminal a state =
     Inr (check_winner state (human a) (size' a) (to_win a) = Inr True
          \<or> check_winner state (computer a) (size' a) (to_win a) = Inr True
          \<or> get_moves a state mx = [])"
proof -
  obtain cw hw where c: "check_winner state (computer a) (size' a) (to_win a) = Inr cw"
    and h: "check_winner state (human a) (size' a) (to_win a) = Inr hw"
    using check_winner_lines [OF len] by blast
  show ?thesis
    by (simp add: is_terminal_def c h get_moves_empty_iff)
qed

lemma evaluate_total:
  "length state = nat (size' a * size' a) \<Longrightarrow> \<exists>v. evaluate a state = Inr v"
  using evaluate_wf by blast

lemma get_moves_flag: "get_moves a state mx = get_moves a state mx'"
  by (simp add: get_moves_def)

lemma free_cells_decrease:
  assumes mv: "move \<in> set (get_moves a state mx)"
    and mark: "mark = human a \<or> mark = computer a"
  shows "length (get_moves a (state[nat move := mark]) mx') < length (get_moves a state mx)"
proof -
  have r: "0 \<le> move" "move < int (length state)"
    using get_moves_in_range [OF mv] by simp_all
  have sub: "set (get_moves a (state[nat move := mark]) mx') \<subseteq> set (get_moves a state mx)"
  proof (rule subsetI)
    fix x assume "x \<in> set (get_moves a (state[nat move := mark]) mx')"
    then have x: "0 \<le> x" "x < int (length state)"
      and cell: "state[nat move := mark] ! nat x \<noteq> human a"
        "state[nat move := mark] ! nat x \<noteq> computer a"
      by (simp_all add: set_get_moves)
    have n: "nat x < length state" using x by simp
    have "nat x \<noteq> nat move" using cell mark n by auto
    then have "state[nat move := mark] ! nat x = state ! nat x" by simp
    then show "x \<in> set (get_moves a state mx)"
      using x cell by (simp add: set_get_moves)
  qed
  have notin: "move \<notin> set (get_moves a (state[nat move := mark]) mx')"
    using mark r by (auto simp: set_get_moves)
  have "set (get_moves a (state[nat move := mark]) mx') \<subset> set (get_moves a state mx)"
    using sub notin mv by blast
  then have "card (set (get_moves a (state[nat move := mark]) mx'))
      < card (set (get_moves a state mx))"
    by (intro psubset_card_mono) simp_all
  then show ?thesis
    by (simp add: distinct_card distinct_get_moves)
qed

lemma select_best_finite:
  assumes ne: "moves \<noteq> []" and fin: "\<forall>m \<in> set moves. \<exists>v. sc m = Fin v"
  shows "\<exists>v m. select_best (better_for mx) sc moves (worst_for mx, None) = (Fin v, Some m)"
proof -
  obtain bs' bm' where sel:
    "select_best (better_for mx) sc moves (worst_for mx, None) = (bs', bm')"
    by (cases "select_best (better_for mx) sc moves (worst_for mx, None)")
  note f = select_best_first [OF sel]
  obtain x where x: "x \<in> set moves" using ne by (cases moves) auto
  then obtain vx where vx: "sc x = Fin vx" using fin by blast
  have "better_for mx (sc x) (worst_for mx)"
    by (cases mx) (simp_all add: vx better_for_def worst_for_def)
  moreover have "\<not> better_for mx (sc x) bs'" using f x by blast
  ultimately have "bs' \<noteq> worst_for mx" by auto
  then obtain pre m post where p: "moves = pre @ m # post" "bm' = Some m" "bs' = sc m"
    using f by blast
  then have "m \<in> set moves" by simp
  then obtain v where "sc m = Fin v" using fin by blast
  then show ?thesis using sel p by simp
qed

lemma search_total:
  assumes len: "length state = nat (size' a * size' a)"
  shows "\<exists>v r. search a state depth mx = Some (Inr (Fin v, r))"
  using len
proof (induction "length (get_moves a state True)" arbitrary: state depth mx rule: less_induct)
  case less
  note len = less.prems
  obtain v0 where ev: "evaluate a state = Inr v0"
    using evaluate_total [OF len] by blast
  show ?case
  proof (cases "depth = 0 \<or> is_terminal a state = Inr True")
    case True
    then show ?thesis
      unfolding search_def by (simp add: minimax_leaf ev)
  next
    case False
    then have d: "depth \<noteq> 0" and t: "is_terminal a state = Inr False"
      using is_terminal_wf [OF len, of mx] by auto
    have ne: "get_moves a state mx \<noteq> []"
      using t is_terminal_wf [OF len, of mx] by auto
    let ?mark = "if mx then computer a else human a"
    have child: "\<forall>m \<in> set (get_moves a state mx). \<exists>v. \<exists>ns r. apply_move a state m mx = Inr ns
        \<and> search a ns (depth - 1) (\<not> mx) = Some (Inr (Fin v, r))"
    proof
      fix m assume m: "m \<in> set (get_moves a state mx)"
      have am: "apply_move a state m mx = Inr (state[nat m := ?mark])"
        using get_moves_in_range [OF m] by (simp add: apply_move_in_range)
      have "length (get_moves a (state[nat m := ?mark]) True) < length (get_moves a state mx)"
        using m by (intro free_cells_decrease) auto
      then have lt: "length (get_moves a (state[nat m := ?mark]) True)
          < length (get_moves a state True)"
        using get_moves_flag [of a state mx True] by simp
      have "length (state[nat m := ?mark]) = nat (size' a * size' a)"
        using len by simp
      from less.hyps [OF lt this, of "depth - 1" "\<not> mx"] am
      show "\<exists>v. \<exists>ns r. apply_move a state m mx = Inr ns
        \<and> search a ns (depth - 1) (\<not> mx) = Some (Inr (Fin v, r))"
        by blast
    qed
    then obtain f where f: "\<forall>m \<in> set (get_moves a state mx). \<exists>ns r.
        apply_move a state m mx = Inr ns
        \<and> search a ns (depth - 1) (\<not> mx) = Some (Inr (Fin (f m), r))"
      using bchoice [OF child] by blast
    have "search a state depth mx =
        Some (Inr (select_best (better_for mx) (\<lambda>m. Fin (f m)) (get_moves a state mx)
                     (worst_for mx, None)))"
      unfolding search_def
      by (rule minimax_rec_select [where moves = "get_moves a state mx"])
         (use d t f in \<open>simp_all add: search_def\<close>)
    moreover have "\<exists>v m. select_best (better_for mx) (\<lambda>m. Fin (f m)) (get_moves a state mx)
                     (worst_for mx, None) = (Fin v, Some m)"
      using ne by (intro select_best_finite) simp_all
    ultimately show ?thesis by auto
  qed
qed

subsection \<open>Base case and empty move lists\<close>

text \<open>
  Claim C1, as amended. For every set of callbacks, every state and every depth \<open>> 0\<close>
  such that \<^verbatim>\<open>is_terminal(state)\<close> is false and \<^verbatim>\<open>get_moves(state, maximizing)\<close> is the
  empty list, \<^verbatim>\<open>minimax\<close> returns the pair of the sentinel its loop starts from and
  \<^verbatim>\<open>None\<close>: \<^verbatim>\<open>(float("-inf"), None)\<close> when maximizing and \<^verbatim>\<open>(float("inf"), None)\<close> when
  minimizing. The static evaluation is not consulted.
\<close>

theorem minimax_no_moves_returns_sentinel:
  assumes "0 < depth" and "it state = Inr False" and "gm state mx = Inr []"
  shows "minimax state depth mx gm am ev it = Some (Inr (if mx then MInf else PInf, None))"
proof -
  have d: "depth \<noteq> 0" using assms(1) by simp
  show ?thesis
    unfolding minimax_rec [where it = it and state = state and gm = gm, OF d assms(2,3)]
    by (simp add: worst_for_def)
qed

theorem minimax_no_moves_returns_sentinel_witness:
  "(0::int) < 2 \<and> stuck_terminal () = Inr False \<and> stuck_moves () False = Inr []
   \<and> minimax () 2 False stuck_moves stuck_apply stuck_evaluate stuck_terminal
       = Some (Inr (PInf, None))"
  using minimax_no_moves_returns_sentinel
    [of 2 stuck_terminal "()" stuck_moves False stuck_apply stuck_evaluate]
  by (simp add: stuck_terminal_def stuck_moves_def)

text \<open>
  Claim C1 as stated fails: at depth one, in a state that is not terminal, has no move and
  evaluates to \<open>7\<close>, the result is not \<open>(7, None)\<close>.
\<close>

theorem minimax_no_moves_counterexample:
  "(0::int) < 1 \<and> stuck_terminal () = Inr False \<and> stuck_moves () True = Inr []
   \<and> stuck_evaluate () = Inr 7
   \<and> minimax () 1 True stuck_moves stuck_apply stuck_evaluate stuck_terminal
       \<noteq> Some (Inr (Fin 7, None))"
  by code_simp

lemma search_leaf:
  assumes len: "length board = nat (size' a * size' a)"
    and c: "depth = 0 \<or> get_moves a board mx = []"
  shows "\<exists>v. evaluate a board = Inr v \<and> search a board depth mx = Some (Inr (Fin v, None))"
proof -
  obtain v where ev: "evaluate a board = Inr v"
    using evaluate_total [OF len] by blast
  have "depth = 0 \<or> is_terminal a board = Inr True"
    using c is_terminal_wf [OF len, of mx] by auto
  then have "search a board depth mx = Some (Inr (Fin v, None))"
    unfolding search_def by (simp add: minimax_leaf ev)
  then show ?thesis using ev by simp
qed

text \<open>
  Claim C2. For every state and every set of callbacks, if \<^verbatim>\<open>depth == 0\<close> or
  \<^verbatim>\<open>is_terminal(state)\<close> is true, \<^verbatim>\<open>minimax\<close> returns \<^verbatim>\<open>(evaluate(state), None)\<close> (and
  raises what \<^verbatim>\<open>evaluate\<close> raises), whatever the move callbacks are. In particular, on a
  Tic-Tac-Toe board of \<open>size * size\<close> cells with no move available, or at depth zero, the
  search returns and yields the move \<^verbatim>\<open>None\<close> with exactly the score \<^verbatim>\<open>evaluate(state)\<close>,
  and \<^verbatim>\<open>best_move\<close> returns \<^verbatim>\<open>None\<close>.
\<close>

theorem minimax_base_case:
  "(depth = 0 \<or> it state = Inr True \<longrightarrow>
      minimax state depth mx gm am ev it = Some (map_sum id (\<lambda>v. (Fin v, None)) (ev state)))
   \<and> (length board = nat (size' a * size' a) \<and> (depth = 0 \<or> get_moves a board mx = []) \<longrightarrow>
        (\<exists>v. evaluate a board = Inr v \<and> search a board depth mx = Some (Inr (Fin v, None)))
        \<and> best_move a board depth = Some (Inr None))"
proof -
  have "best_move a board depth = Some (Inr None)"
    if "length board = nat (size' a * size' a)" "depth = 0 \<or> get_moves a board mx = []"
  proof -
    have "depth = 0 \<or> get_moves a board True = []"
      using that(2) get_moves_flag [of a board mx True] by simp
    from search_leaf [OF that(1) this] show ?thesis
      by (auto simp: best_move_def)
  qed
  then show ?thesis
    using minimax_leaf [of depth it state mx gm am ev] search_leaf [of board a depth mx]
    by blast
qed

theorem minimax_base_case_witness:
  "((0::int) = 0 \<or> stuck_terminal () = Inr True)
   \<and> minimax () 0 True stuck_moves stuck_apply stuck_evaluate stuck_terminal
       = Some (Inr (Fin 7, None))
   \<and> length [''X'', ''O'', ''X'', ''X'', ''O'', ''O'', ''O'', ''X'', ''X''] =
       nat (size' \<lparr>size' = 3, to_win = 3, human = ''X'', computer = ''O''\<rparr>
            * size' \<lparr>size' = 3, to_win = 3, human = ''X'', computer = ''O''\<rparr>)
   \<and> ((3::int) = 0 \<or> get_moves \<lparr>size' = 3, to_win = 3, human = ''X'', computer = ''O''\<rparr>
         [''X'', ''O'', ''X'', ''X'', ''O'', ''O'', ''O'', ''X'', ''X''] True = [])
   \<and> evaluate \<lparr>size' = 3, to_win = 3, human = ''X'', computer = ''O''\<rparr>
         [''X'', ''O'', ''X'', ''X'', ''O'', ''O'', ''O'', ''X'', ''X''] = Inr 0
   \<and> search \<lparr>size' = 3, to_win = 3, human = ''X'', computer = ''O''\<rparr>
         [''X'', ''O'', ''X'', ''X'', ''O'', ''O'', ''O'', ''X'', ''X''] 3 True
       = Some (Inr (Fin 0, None))
   \<and> best_move \<lparr>size' = 3, to_win = 3, human = ''X'', computer = ''O''\<rparr>
         [''X'', ''O'', ''X'', ''X'', ''O'', ''O'', ''O'', ''X'', ''X''] 3 = Some (Inr None)"
proof -
  have g: "get_moves \<lparr>size' = 3, to_win = 3, human = ''X'', computer = ''O''\<rparr>
         [''X'', ''O'', ''X'', ''X'', ''O'', ''O'', ''O'', ''X'', ''X''] True = []"
    by code_simp
  have e: "evaluate \<lparr>size' = 3, to_win = 3, human = ''X'', computer = ''O''\<rparr>
         [''X'', ''O'', ''X'', ''X'', ''O'', ''O'', ''O'', ''X'', ''X''] = Inr 0"
    by code_simp
  show ?thesis
    using g e minimax_base_case
      [of 0 stuck_terminal "()" True stuck_moves stuck_apply stuck_evaluate
          "[''X'', ''O'', ''X'', ''X'', ''O'', ''O'', ''O'', ''X'', ''X'']"
          "\<lparr>size' = 3, to_win = 3, human = ''X'', computer = ''O''\<rparr>"]
      minimax_base_case
      [of 3 stuck_terminal "()" True stuck_moves stuck_apply stuck_evaluate
          "[''X'', ''O'', ''X'', ''X'', ''O'', ''O'', ''O'', ''X'', ''X'']"
          "\<lparr>size' = 3, to_win = 3, human = ''X'', computer = ''O''\<rparr>"]
    by (simp add: stuck_evaluate_def)
qed

subsection \<open>Tie-breaking\<close>

lemma minimax_first_best:
  assumes d: "depth \<noteq> 0" and t: "it state = Inr False" and g: "gm state mx = Inr moves"
    and res: "minimax state depth mx gm am ev it = Some (Inr (best, bm))"
  shows "\<exists>sc. (\<forall>m \<in> set moves. \<exists>ns r. am state m mx = Inr ns
                  \<and> minimax ns (depth - 1) (\<not> mx) gm am ev it = Some (Inr (sc m, r)))
             \<and> (\<forall>m \<in> set moves. \<not> better_for mx (sc m) best)
             \<and> (case bm of
                  None \<Rightarrow> best = worst_for mx \<and> (\<forall>m \<in> set moves. sc m = worst_for mx)
                | Some m \<Rightarrow> \<exists>pre post. moves = pre @ m # post \<and> best = sc m
                             \<and> (\<forall>m' \<in> set pre. better_for mx best (sc m')))"
proof -
  obtain sc where sc: "\<forall>m \<in> set moves. \<exists>ns r. am state m mx = Inr ns
        \<and> minimax ns (depth - 1) (\<not> mx) gm am ev it = Some (Inr (sc m, r))"
    using minimax_rec_children [OF d t g res] by blast
  have "select_best (better_for mx) sc moves (worst_for mx, None) = (best, bm)"
    using minimax_rec_select [OF d t g sc] res by simp
  note f = select_best_first [OF this]
  have c: "case bm of
             None \<Rightarrow> best = worst_for mx \<and> (\<forall>m \<in> set moves. sc m = worst_for mx)
           | Some m \<Rightarrow> \<exists>pre post. moves = pre @ m # post \<and> best = sc m
                        \<and> (\<forall>m' \<in> set pre. better_for mx best (sc m'))"
  proof (cases bm)
    case None
    then have w: "best = worst_for mx" using f by auto
    then have "\<forall>m \<in> set moves. sc m = worst_for mx"
      using f better_for_worst [of _ mx] by blast
    then show ?thesis using None w by simp
  next
    case (Some m)
    then show ?thesis using f by auto
  qed
  show ?thesis
    using sc f c by blast
qed

lemma sorted_split_less:
  fixes m :: int
  assumes "sorted_wrt (<) (pre @ m # post)" and "m' \<in> set (pre @ m # post)" and "m' < m"
  shows "m' \<in> set pre"
  using assms by (auto simp: sorted_wrt_append)

lemma best_move_lowest_index:
  assumes len: "length board = nat (size' a * size' a)"
    and d: "depth \<noteq> 0" and t: "is_terminal a board = Inr False"
  shows "\<exists>m best. search a board depth True = Some (Inr (Fin best, Some m))
           \<and> best_move a board depth = Some (Inr (Some m))
           \<and> m \<in> set (get_moves a board True)
           \<and> (\<forall>m' \<in> set (get_moves a board True).
                \<exists>v r. search a (board[nat m' := computer a]) (depth - 1) False
                         = Some (Inr (Fin v, r))
                      \<and> v \<le> best \<and> (m' < m \<longrightarrow> v < best) \<and> (m' = m \<longrightarrow> v = best))"
proof -
  let ?moves = "get_moves a board True"
  have ch: "\<forall>m \<in> set ?moves. \<exists>v. \<exists>r.
      search a (board[nat m := computer a]) (depth - 1) False = Some (Inr (Fin v, r))"
    using search_total [of "board[nat _ := computer a]" a "depth - 1" False] len by simp
  obtain f where f: "\<forall>m \<in> set ?moves. \<exists>r.
      search a (board[nat m := computer a]) (depth - 1) False = Some (Inr (Fin (f m), r))"
    using bchoice [OF ch] by blast
  have am: "\<forall>m \<in> set ?moves. apply_move a board m True = Inr (board[nat m := computer a])"
    using get_moves_in_range [of _ a board True] by (simp add: apply_move_in_range)
  have kids: "\<forall>m \<in> set ?moves. \<exists>ns r. apply_move a board m True = Inr ns
      \<and> minimax ns (depth - 1) (\<not> True) (\<lambda>s m. Inr (get_moves a s m)) (apply_move a)
            (evaluate a) (is_terminal a) = Some (Inr (Fin (f m), r))"
    using f am by (simp add: search_def)
  have s: "search a board depth True =
      Some (Inr (select_best (better_for True) (\<lambda>m. Fin (f m)) ?moves (worst_for True, None)))"
    unfolding search_def
    by (rule minimax_rec_select [where moves = ?moves, OF d t _ kids]) simp
  have ne: "?moves \<noteq> []"
    using t is_terminal_wf [OF len, of True] by auto
  obtain best m where sel: "select_best (better_for True) (\<lambda>m. Fin (f m)) ?moves
      (worst_for True, None) = (Fin best, Some m)"
    using select_best_finite [OF ne, of "\<lambda>m. Fin (f m)" True] by auto
  note fb = select_best_first [OF sel]
  from fb obtain pre post where p: "?moves = pre @ m # post" "Fin best = Fin (f m)"
    "\<forall>m' \<in> set pre. better_for True (Fin best) (Fin (f m'))"
    by auto
  have le: "\<forall>m' \<in> set ?moves. f m' \<le> best"
    using fb by (auto simp: better_for_def)
  have lt: "\<forall>m' \<in> set ?moves. m' < m \<longrightarrow> f m' < best"
  proof (intro ballI impI)
    fix m' assume m': "m' \<in> set ?moves" "m' < m"
    have "sorted_wrt (<) (pre @ m # post)"
      using sorted_get_moves [of a board True] p(1) by simp
    then have "m' \<in> set pre"
      using m' p(1) by (intro sorted_split_less [of pre m post m']) simp_all
    then show "f m' < best" using p(3) by (auto simp: better_for_def)
  qed
  have mem: "m \<in> set ?moves" using p(1) by simp
  have bm: "best_move a board depth = Some (Inr (Some m))"
    by (simp add: best_move_def s sel)
  have "\<forall>m' \<in> set ?moves.
          \<exists>v r. search a (board[nat m' := computer a]) (depth - 1) False
                         = Some (Inr (Fin v, r))
                      \<and> v \<le> best \<and> (m' < m \<longrightarrow> v < best) \<and> (m' = m \<longrightarrow> v = best)"
    using f le lt p(2) by fastforce
  then show ?thesis
    using s sel bm mem by auto
qed

text \<open>
  Claim C3. In the recursive case of \<^verbatim>\<open>minimax\<close> the best move is replaced only by a
  move whose score is strictly better for the side to move. Hence, whenever the call
  returns a move, every move has returned a score, no score is better than the returned
  one, the returned move attains it, and every move listed before it by \<^verbatim>\<open>get_moves\<close>
  scores strictly worse: the returned move is the first optimal one, and a later move of
  equal score never replaces it. No move is returned only if every move scores exactly the
  sentinel the loop starts from (in particular, if there is no move).
  On a Tic-Tac-Toe board of \<open>size * size\<close> cells that is not terminal, \<^verbatim>\<open>best_move\<close> with
  a depth other than zero returns a move: a free cell whose score is the maximum over all
  free cells, and every free cell of lower index scores strictly less.
\<close>

theorem first_best_move_wins_ties:
  "(depth \<noteq> 0 \<and> it state = Inr False \<and> gm state mx = Inr moves
      \<and> minimax state depth mx gm am ev it = Some (Inr (best, bm)) \<longrightarrow>
      (\<exists>sc. (\<forall>m \<in> set moves. \<exists>ns r. am state m mx = Inr ns
                  \<and> minimax ns (depth - 1) (\<not> mx) gm am ev it = Some (Inr (sc m, r)))
             \<and> (\<forall>m \<in> set moves. \<not> better_for mx (sc m) best)
             \<and> (case bm of
                  None \<Rightarrow> best = worst_for mx \<and> (\<forall>m \<in> set moves. sc m = worst_for mx)
                | Some m \<Rightarrow> \<exists>pre post. moves = pre @ m # post \<and> best = sc m
                             \<and> (\<forall>m' \<in> set pre. better_for mx best (sc m')))))
   \<and> (length board = nat (size' a * size' a) \<and> depth' \<noteq> 0 \<and> is_terminal a board = Inr False \<longrightarrow>
        (\<exists>m top. search a board depth' True = Some (Inr (Fin top, Some m))
           \<and> best_move a board depth' = Some (Inr (Some m))
           \<and> m \<in> set (get_moves a board True)
           \<and> (\<forall>m' \<in> set (get_moves a board True).
                \<exists>v r. search a (board[nat m' := computer a]) (depth' - 1) False
                         = Some (Inr (Fin v, r))
                      \<and> v \<le> top \<and> (m' < m \<longrightarrow> v < top) \<and> (m' = m \<longrightarrow> v = top))))"
  using minimax_first_best [of depth it state gm mx moves am ev best bm]
    best_move_lowest_index [of board a depth']
  by blast


theorem first_best_move_wins_ties_witness:
  "(1::int) \<noteq> 0
   \<and> is_terminal \<lparr>size' = 3, to_win = 3, human = ''X'', computer = ''O''\<rparr>
        [''X'', ''2'', ''3'', ''4'', ''O'', ''6'', ''7'', ''X'', ''9''] = Inr False
   \<and> get_moves \<lparr>size' = 3, to_win = 3, human = ''X'', computer = ''O''\<rparr>
        [''X'', ''2'', ''3'', ''4'', ''O'', ''6'', ''7'', ''X'', ''9''] True = [1, 2, 3, 5, 6, 8]
   \<and> length [''X'', ''2'', ''3'', ''4'', ''O'', ''6'', ''7'', ''X'', ''9''] =
        nat (size' \<lparr>size' = 3, to_win = 3, human = ''X'', computer = ''O''\<rparr>
             * size' \<lparr>size' = 3, to_win = 3, human = ''X'', computer = ''O''\<rparr>)
   \<and> search \<lparr>size' = 3, to_win = 3, human = ''X'', computer = ''O''\<rparr>
        [''X'', ''2'', ''3'', ''4'', ''O'', ''6'', ''7'', ''X'', ''9''] 1 True
       = Some (Inr (Fin 2, Some 2))
   \<and> search \<lparr>size' = 3, to_win = 3, human = ''X'', computer = ''O''\<rparr>
        [''X'', ''2'', ''O'', ''4'', ''O'', ''6'', ''7'', ''X'', ''9''] 0 False
       = Some (Inr (Fin 2, None))
   \<and> search \<lparr>size' = 3, to_win = 3, human = ''X'', computer = ''O''\<rparr>
        [''X'', ''2'', ''3'', ''4'', ''O'', ''6'', ''O'', ''X'', ''9''] 0 False
       = Some (Inr (Fin 2, None))
   \<and> best_move \<lparr>size' = 3, to_win = 3, human = ''X'', computer = ''O''\<rparr>
        [''X'', ''2'', ''3'', ''4'', ''O'', ''6'', ''7'', ''X'', ''9''] 1 = Some (Inr (Some 2))"
proof -
  let ?a = "\<lparr>size' = 3, to_win = 3, human = ''X'', computer = ''O''\<rparr>"
  let ?b = "[''X'', ''2'', ''3'', ''4'', ''O'', ''6'', ''7'', ''X'', ''9'']"
  have t: "is_terminal ?a ?b = Inr False" by code_simp
  have g: "get_moves ?a ?b True = [1, 2, 3, 5, 6, 8]" by code_simp
  have s: "search ?a ?b 1 True = Some (Inr (Fin 2, Some 2))" by code_simp
  have c2: "search ?a [''X'', ''2'', ''O'', ''4'', ''O'', ''6'', ''7'', ''X'', ''9''] 0 False
      = Some (Inr (Fin 2, None))" by code_simp
  have c6: "search ?a [''X'', ''2'', ''3'', ''4'', ''O'', ''6'', ''O'', ''X'', ''9''] 0 False
      = Some (Inr (Fin 2, None))" by code_simp
  have bm: "best_move ?a ?b 1 = Some (Inr (Some 2))"
    by (simp add: best_move_def s)
  have len: "length ?b = nat (size' ?a * size' ?a)" by simp
  have m: "minimax ?b 1 True (\<lambda>s m. Inr (get_moves ?a s m)) (apply_move ?a) (evaluate ?a)
      (is_terminal ?a) = Some (Inr (Fin 2, Some 2))"
    using s by (simp add: search_def)
  have g': "(\<lambda>s m. Inr (get_moves ?a s m)) ?b True = (Inr [1, 2, 3, 5, 6, 8] :: error + int list)"
    using g by simp
  note w = first_best_move_wins_ties
    [where depth = 1 and it = "is_terminal ?a" and state = ?b
       and gm = "\<lambda>s m. Inr (get_moves ?a s m)" and mx = True and moves = "[1, 2, 3, 5, 6, 8]"
       and am = "apply_move ?a" and ev = "evaluate ?a" and best = "Fin 2" and bm = "Some 2"
       and board = ?b and a = ?a and depth' = 1]
  show ?thesis
    using w t g s c2 c6 bm len m g' by simp
qed

end
